theory Spec2Isabelle
  imports Main "HOL-Library.Monad_Syntax"
begin

section \<open>The linked hash map of \<^verbatim>\<open>src/linked_hashmap.hpp\<close>\<close>

text \<open>
  The container is a pointer structure: every entry is a heap node that lies on two
  intrusive lists at once (the collision chain of its bucket and the doubly linked
  insertion-order list between two sentinels).  The model keeps the pointers: nodes,
  bucket arrays and container objects live in an explicit store, every method takes the
  store and the address \<open>this\<close> of the container it is called on, and returns the new store.

  \<^item> A \<^verbatim>\<open>Node *\<close> is an \<open>addr option\<close>, \<open>None\<close> being \<^verbatim>\<open>nullptr\<close>.
  \<^item> Every method returns an \<open>option\<close>: \<open>None\<close> stands for undefined behaviour of the
    C++ program (a null or dangling pointer is dereferenced, an index is out of range,
    a remainder by zero is taken) and for a loop that never ends.
  \<^item> A method that can throw returns \<open>exn + result\<close> inside that option, \<open>Inl\<close> being the
    exception.
  \<^item> \<^verbatim>\<open>size_t\<close> counters are natural numbers.  Each counted entry is a separate live
    allocation, so a counter cannot reach \<open>2 ^ 64\<close>; the decrement in \<^verbatim>\<open>erase\<close> is the one
    place where the source can wrap (at zero) and the wrap is written out there.
  \<^item> The test \<^verbatim>\<open>element_count + 1 > bucket_count * LOAD_FACTOR\<close> is evaluated in
    \<^verbatim>\<open>double\<close> with \<^verbatim>\<open>LOAD_FACTOR = 0.75\<close>.  Three quarters is a dyadic fraction and both
    sides are exact for counts below \<open>2 ^ 53\<close>, so the test is the integer comparison
    \<open>3 * bucket_count < 4 * (element_count + 1)\<close>.
  \<^item> \<^verbatim>\<open>new\<close> takes the next unused address (a bump allocator that never fails);
    \<^verbatim>\<open>delete\<close> removes the address from the store.
\<close>

subsection \<open>Data\<close>

type_synonym addr = nat

datatype exn = invalid_iterator | index_out_of_bound

text \<open>\<^verbatim>\<open>struct Node\<close>.  The sentinels have \<open>data = None\<close> (\<^verbatim>\<open>data(nullptr)\<close>).\<close>

record ('k, 'v) Node =
  data :: "('k \<times> 'v) option"
  next_in_bucket :: "addr option"
  prev :: "addr option"
  "next" :: "addr option"

text \<open>The data members of \<^verbatim>\<open>class linked_hashmap\<close>; \<open>buckets\<close> is the address of the array.\<close>

record linked_hashmap =
  head :: addr
  tail :: addr
  buckets :: addr
  bucket_count :: nat
  element_count :: nat

text \<open>
  The template parameters: \<^verbatim>\<open>Hash\<close> and \<^verbatim>\<open>Equal\<close> (the members \<^verbatim>\<open>hash_func\<close> and
  \<^verbatim>\<open>equal_func\<close> are default-constructed function objects of these types, the same in
  every container) and the value \<^verbatim>\<open>T()\<close> of a default-constructed mapped value.
\<close>

record ('k, 'v) traits =
  hash_func :: "'k \<Rightarrow> nat"
  equal_func :: "'k \<Rightarrow> 'k \<Rightarrow> bool"
  default_T :: "'v"

text \<open>The store: nodes, bucket arrays, container objects, and the allocator's next address.\<close>

record ('k, 'v) heap =
  nodes :: "addr \<rightharpoonup> ('k, 'v) Node"
  arrays :: "addr \<rightharpoonup> addr option list"
  maps :: "addr \<rightharpoonup> linked_hashmap"
  brk :: addr

text \<open>
  \<^verbatim>\<open>class iterator\<close> and \<^verbatim>\<open>class const_iterator\<close> have the same two members and the same
  operator bodies, so one record and one set of operators model both.
\<close>

record iterator =
  node_it :: "addr option"
  map_it :: "addr option"

text \<open>
  A \<^verbatim>\<open>Node **\<close> as used by \<^verbatim>\<open>erase\<close>: the address of a slot of the bucket array or of the
  \<^verbatim>\<open>next_in_bucket\<close> member of a node.
\<close>

datatype slot = Bucket_slot nat | Chain_slot addr

subsection \<open>Memory primitives\<close>

definition INITIAL_BUCKET_COUNT :: nat where
  "INITIAL_BUCKET_COUNT = 16"

definition load :: "('k, 'v) heap \<Rightarrow> addr option \<Rightarrow> ('k, 'v) Node option" where
  "load s p = do { a \<leftarrow> p; nodes s a }"

definition store :: "addr \<Rightarrow> ('k, 'v) Node \<Rightarrow> ('k, 'v) heap \<Rightarrow> ('k, 'v) heap" where
  "store a n s = s\<lparr>nodes := (nodes s)(a \<mapsto> n)\<rparr>"

definition set_prev :: "addr option \<Rightarrow> addr option \<Rightarrow> ('k, 'v) heap \<Rightarrow> ('k, 'v) heap option" where
  "set_prev p v s = do { a \<leftarrow> p; n \<leftarrow> nodes s a; Some (store a (n\<lparr>prev := v\<rparr>) s) }"

definition set_next :: "addr option \<Rightarrow> addr option \<Rightarrow> ('k, 'v) heap \<Rightarrow> ('k, 'v) heap option" where
  "set_next p v s = do { a \<leftarrow> p; n \<leftarrow> nodes s a; Some (store a (n\<lparr>next := v\<rparr>) s) }"

definition set_next_in_bucket ::
  "addr option \<Rightarrow> addr option \<Rightarrow> ('k, 'v) heap \<Rightarrow> ('k, 'v) heap option" where
  "set_next_in_bucket p v s =
     do { a \<leftarrow> p; n \<leftarrow> nodes s a; Some (store a (n\<lparr>next_in_bucket := v\<rparr>) s) }"

text \<open>\<^verbatim>\<open>new Node()\<close> and \<^verbatim>\<open>new Node(val)\<close>: all links null, the payload as given.\<close>

definition new_Node :: "('k \<times> 'v) option \<Rightarrow> ('k, 'v) heap \<Rightarrow> addr \<times> ('k, 'v) heap" where
  "new_Node d s =
     (brk s, s\<lparr>nodes := (nodes s)(brk s \<mapsto>
                  \<lparr>data = d, next_in_bucket = None, prev = None, next = None\<rparr>),
               brk := Suc (brk s)\<rparr>)"

text \<open>\<^verbatim>\<open>delete node\<close>; deleting what is not allocated is undefined.\<close>

definition delete_Node :: "addr \<Rightarrow> ('k, 'v) heap \<Rightarrow> ('k, 'v) heap option" where
  "delete_Node a s = do { _ \<leftarrow> nodes s a; Some (s\<lparr>nodes := (nodes s)(a := None)\<rparr>) }"

text \<open>
  \<^verbatim>\<open>new Node*[count]\<close> followed by the loop that stores \<^verbatim>\<open>nullptr\<close> in every slot.
\<close>

definition new_array :: "nat \<Rightarrow> ('k, 'v) heap \<Rightarrow> addr \<times> ('k, 'v) heap" where
  "new_array count s =
     (brk s, s\<lparr>arrays := (arrays s)(brk s \<mapsto> replicate count None), brk := Suc (brk s)\<rparr>)"

definition delete_array :: "addr \<Rightarrow> ('k, 'v) heap \<Rightarrow> ('k, 'v) heap option" where
  "delete_array b s = do { _ \<leftarrow> arrays s b; Some (s\<lparr>arrays := (arrays s)(b := None)\<rparr>) }"

definition read_bucket :: "('k, 'v) heap \<Rightarrow> addr \<Rightarrow> nat \<Rightarrow> addr option option" where
  "read_bucket s b i = do { bs \<leftarrow> arrays s b; if i < length bs then Some (bs ! i) else None }"

definition write_bucket ::
  "addr \<Rightarrow> nat \<Rightarrow> addr option \<Rightarrow> ('k, 'v) heap \<Rightarrow> ('k, 'v) heap option" where
  "write_bucket b i v s =
     do { bs \<leftarrow> arrays s b;
          if i < length bs then Some (s\<lparr>arrays := (arrays s)(b \<mapsto> bs[i := v])\<rparr>) else None }"

definition set_map :: "addr \<Rightarrow> linked_hashmap \<Rightarrow> ('k, 'v) heap \<Rightarrow> ('k, 'v) heap" where
  "set_map this c s = s\<lparr>maps := (maps s)(this \<mapsto> c)\<rparr>"

subsection \<open>Private members\<close>

text \<open>\<^verbatim>\<open>init_sentinels\<close>: returns the two addresses that the source stores in \<open>head\<close>, \<open>tail\<close>.\<close>

definition init_sentinels :: "('k, 'v) heap \<Rightarrow> (addr \<times> addr \<times> ('k, 'v) heap) option" where
  "init_sentinels s =
     (let (h, s1) = new_Node None s;
          (t, s2) = new_Node None s1
      in do { s3 \<leftarrow> set_next (Some h) (Some t) s2;
              s4 \<leftarrow> set_prev (Some t) (Some h) s3;
              Some (h, t, s4) })"

text \<open>\<^verbatim>\<open>init_buckets\<close>: returns the address that the source stores in \<open>buckets\<close>.\<close>

definition init_buckets :: "nat \<Rightarrow> ('k, 'v) heap \<Rightarrow> addr \<times> ('k, 'v) heap" where
  "init_buckets count s = new_array count s"

definition get_bucket_index ::
  "('k, 'v) traits \<Rightarrow> ('k, 'v) heap \<Rightarrow> addr \<Rightarrow> 'k \<Rightarrow> nat option" where
  "get_bucket_index T s this key =
     do { c \<leftarrow> maps s this;
          if bucket_count c = 0 then None else Some (hash_func T key mod bucket_count c) }"

partial_function (option) find_in_bucket_loop ::
  "('k, 'v) traits \<Rightarrow> ('k, 'v) heap \<Rightarrow> 'k \<Rightarrow> addr option \<Rightarrow> addr option option" where
  "find_in_bucket_loop T s key node =
     (case node of
        None \<Rightarrow> Some None
      | Some a \<Rightarrow>
          do { n \<leftarrow> nodes s a;
               d \<leftarrow> data n;
               if equal_func T (fst d) key then Some (Some a)
               else find_in_bucket_loop T s key (next_in_bucket n) })"

declare find_in_bucket_loop.simps [code]

definition find_in_bucket ::
  "('k, 'v) traits \<Rightarrow> ('k, 'v) heap \<Rightarrow> addr \<Rightarrow> 'k \<Rightarrow> nat \<Rightarrow> addr option option" where
  "find_in_bucket T s this key bucket_idx =
     do { c \<leftarrow> maps s this;
          node \<leftarrow> read_bucket s (buckets c) bucket_idx;
          find_in_bucket_loop T s key node }"

partial_function (option) rehash_loop ::
  "('k, 'v) traits \<Rightarrow> addr \<Rightarrow> addr \<Rightarrow> nat \<Rightarrow> addr option \<Rightarrow> ('k, 'v) heap
     \<Rightarrow> ('k, 'v) heap option" where
  "rehash_loop T this new_buckets new_bucket_count node s =
     do { c \<leftarrow> maps s this;
          if node = Some (tail c) then Some s
          else do {
            n \<leftarrow> load s node;
            d \<leftarrow> data n;
            new_idx \<leftarrow> (if new_bucket_count = 0 then None
                        else Some (hash_func T (fst d) mod new_bucket_count));
            b \<leftarrow> read_bucket s new_buckets new_idx;
            s1 \<leftarrow> set_next_in_bucket node b s;
            s2 \<leftarrow> write_bucket new_buckets new_idx node s1;
            n2 \<leftarrow> load s2 node;
            rehash_loop T this new_buckets new_bucket_count (next n2) s2 } }"

declare rehash_loop.simps [code]

definition rehash ::
  "('k, 'v) traits \<Rightarrow> addr \<Rightarrow> nat \<Rightarrow> ('k, 'v) heap \<Rightarrow> ('k, 'v) heap option" where
  "rehash T this new_bucket_count s =
     (let (new_buckets, s1) = new_array new_bucket_count s
      in do { c \<leftarrow> maps s1 this;
              h \<leftarrow> nodes s1 (head c);
              s2 \<leftarrow> rehash_loop T this new_buckets new_bucket_count (next h) s1;
              c2 \<leftarrow> maps s2 this;
              s3 \<leftarrow> delete_array (buckets c2) s2;
              Some (set_map this
                      (c2\<lparr>buckets := new_buckets, bucket_count := new_bucket_count\<rparr>) s3) })"

definition insert_to_order_list ::
  "addr option \<Rightarrow> addr option \<Rightarrow> ('k, 'v) heap \<Rightarrow> ('k, 'v) heap option" where
  "insert_to_order_list node pos s =
     do { p \<leftarrow> load s pos;
          s1 \<leftarrow> set_prev node (prev p) s;
          s2 \<leftarrow> set_next node pos s1;
          p2 \<leftarrow> load s2 pos;
          s3 \<leftarrow> set_next (prev p2) node s2;
          set_prev pos node s3 }"

definition remove_from_order_list ::
  "addr option \<Rightarrow> ('k, 'v) heap \<Rightarrow> ('k, 'v) heap option" where
  "remove_from_order_list node s =
     do { n \<leftarrow> load s node;
          s1 \<leftarrow> set_next (prev n) (next n) s;
          n1 \<leftarrow> load s1 node;
          set_prev (next n1) (prev n1) s1 }"

text \<open>
  The loop shared by \<^verbatim>\<open>clear_all\<close> and \<^verbatim>\<open>clear\<close>: delete every node from \<open>node\<close> up to the
  tail sentinel.
\<close>

partial_function (option) delete_loop ::
  "addr \<Rightarrow> addr option \<Rightarrow> ('k, 'v) heap \<Rightarrow> ('k, 'v) heap option" where
  "delete_loop this node s =
     do { c \<leftarrow> maps s this;
          if node = Some (tail c) then Some s
          else do {
            n \<leftarrow> load s node;
            a \<leftarrow> node;
            s1 \<leftarrow> delete_Node a s;
            delete_loop this (next n) s1 } }"

declare delete_loop.simps [code]

definition clear_all :: "addr \<Rightarrow> ('k, 'v) heap \<Rightarrow> ('k, 'v) heap option" where
  "clear_all this s =
     do { c \<leftarrow> maps s this;
          h \<leftarrow> nodes s (head c);
          s1 \<leftarrow> delete_loop this (next h) s;
          c1 \<leftarrow> maps s1 this;
          s2 \<leftarrow> delete_Node (head c1) s1;
          s3 \<leftarrow> delete_Node (tail c1) s2;
          delete_array (buckets c1) s3 }"

subsection \<open>Cursors\<close>

text \<open>
  The pre-increment and pre-decrement operators.  The result is the cursor after the
  step; the postfix forms check the same condition, make the same step on the cursor
  and return a copy of the cursor before it.
\<close>

definition iter_inc :: "('k, 'v) heap \<Rightarrow> iterator \<Rightarrow> (exn + iterator) option" where
  "iter_inc s it =
     do { m \<leftarrow> map_it it;
          c \<leftarrow> maps s m;
          if node_it it = Some (tail c) then Some (Inl invalid_iterator)
          else do { n \<leftarrow> load s (node_it it);
                    Some (Inr (it\<lparr>node_it := next n\<rparr>)) } }"

definition iter_dec :: "('k, 'v) heap \<Rightarrow> iterator \<Rightarrow> (exn + iterator) option" where
  "iter_dec s it =
     do { m \<leftarrow> map_it it;
          c \<leftarrow> maps s m;
          h \<leftarrow> nodes s (head c);
          if node_it it = next h then Some (Inl invalid_iterator)
          else do { n \<leftarrow> load s (node_it it);
                    Some (Inr (it\<lparr>node_it := prev n\<rparr>)) } }"

definition iter_post_inc ::
  "('k, 'v) heap \<Rightarrow> iterator \<Rightarrow> (exn + iterator \<times> iterator) option" where
  "iter_post_inc s it =
     do { r \<leftarrow> iter_inc s it;
          Some (case r of Inl e \<Rightarrow> Inl e | Inr it' \<Rightarrow> Inr (it, it')) }"

definition iter_post_dec ::
  "('k, 'v) heap \<Rightarrow> iterator \<Rightarrow> (exn + iterator \<times> iterator) option" where
  "iter_post_dec s it =
     do { r \<leftarrow> iter_dec s it;
          Some (case r of Inl e \<Rightarrow> Inl e | Inr it' \<Rightarrow> Inr (it, it')) }"

text \<open>\<^verbatim>\<open>operator*\<close> and \<^verbatim>\<open>operator->\<close>: the payload of the node, unchecked in the source.\<close>

definition iter_deref :: "('k, 'v) heap \<Rightarrow> iterator \<Rightarrow> ('k \<times> 'v) option" where
  "iter_deref s it = do { n \<leftarrow> load s (node_it it); data n }"

definition iter_eq :: "iterator \<Rightarrow> iterator \<Rightarrow> bool" where
  "iter_eq it rhs = (node_it it = node_it rhs \<and> map_it it = map_it rhs)"

definition iter_neq :: "iterator \<Rightarrow> iterator \<Rightarrow> bool" where
  "iter_neq it rhs = (\<not> iter_eq it rhs)"

subsection \<open>Public members\<close>

definition begin_it :: "('k, 'v) heap \<Rightarrow> addr \<Rightarrow> iterator option" where
  "begin_it s this =
     do { c \<leftarrow> maps s this;
          h \<leftarrow> nodes s (head c);
          Some \<lparr>node_it = next h, map_it = Some this\<rparr> }"

definition end_it :: "('k, 'v) heap \<Rightarrow> addr \<Rightarrow> iterator option" where
  "end_it s this =
     do { c \<leftarrow> maps s this;
          Some \<lparr>node_it = Some (tail c), map_it = Some this\<rparr> }"

definition empty_lhm :: "('k, 'v) heap \<Rightarrow> addr \<Rightarrow> bool option" where
  "empty_lhm s this = do { c \<leftarrow> maps s this; Some (element_count c = 0) }"

definition size_lhm :: "('k, 'v) heap \<Rightarrow> addr \<Rightarrow> nat option" where
  "size_lhm s this = do { c \<leftarrow> maps s this; Some (element_count c) }"

text \<open>
  \<^verbatim>\<open>insert\<close>.  The result is the returned pair and the new store.
\<close>

definition insert_lhm ::
  "('k, 'v) traits \<Rightarrow> addr \<Rightarrow> 'k \<times> 'v \<Rightarrow> ('k, 'v) heap
     \<Rightarrow> ((iterator \<times> bool) \<times> ('k, 'v) heap) option" where
  "insert_lhm T this val s =
     do { idx \<leftarrow> get_bucket_index T s this (fst val);
          existing \<leftarrow> find_in_bucket T s this (fst val) idx;
          case existing of
            Some e \<Rightarrow> Some ((\<lparr>node_it = Some e, map_it = Some this\<rparr>, False), s)
          | None \<Rightarrow>
              do { c \<leftarrow> maps s this;
                   (idx, s1) \<leftarrow>
                     (if 3 * bucket_count c < 4 * (element_count c + 1)
                      then do { s1 \<leftarrow> rehash T this (bucket_count c * 2) s;
                                idx \<leftarrow> get_bucket_index T s1 this (fst val);
                                Some (idx, s1) }
                      else Some (idx, s));
                   (new_node, s2) \<leftarrow> Some (new_Node (Some val) s1);
                   c2 \<leftarrow> maps s2 this;
                   b \<leftarrow> read_bucket s2 (buckets c2) idx;
                   s3 \<leftarrow> set_next_in_bucket (Some new_node) b s2;
                   s4 \<leftarrow> write_bucket (buckets c2) idx (Some new_node) s3;
                   s5 \<leftarrow> insert_to_order_list (Some new_node) (Some (tail c2)) s4;
                   c5 \<leftarrow> maps s5 this;
                   Some ((\<lparr>node_it = Some new_node, map_it = Some this\<rparr>, True),
                         set_map this (c5\<lparr>element_count := element_count c5 + 1\<rparr>) s5) } }"

text \<open>\<^verbatim>\<open>Node **\<close> accesses of \<^verbatim>\<open>erase\<close>.\<close>

definition read_slot :: "('k, 'v) heap \<Rightarrow> addr \<Rightarrow> slot \<Rightarrow> addr option option" where
  "read_slot s b sl =
     (case sl of
        Bucket_slot i \<Rightarrow> read_bucket s b i
      | Chain_slot a \<Rightarrow> do { n \<leftarrow> nodes s a; Some (next_in_bucket n) })"

definition write_slot ::
  "addr \<Rightarrow> slot \<Rightarrow> addr option \<Rightarrow> ('k, 'v) heap \<Rightarrow> ('k, 'v) heap option" where
  "write_slot b sl v s =
     (case sl of
        Bucket_slot i \<Rightarrow> write_bucket b i v s
      | Chain_slot a \<Rightarrow> set_next_in_bucket (Some a) v s)"

partial_function (option) erase_loop ::
  "('k, 'v) heap \<Rightarrow> addr \<Rightarrow> slot \<Rightarrow> addr \<Rightarrow> slot option" where
  "erase_loop s b bucket_ptr node =
     do { p \<leftarrow> read_slot s b bucket_ptr;
          case p of
            None \<Rightarrow> Some bucket_ptr
          | Some a \<Rightarrow> if a = node then Some bucket_ptr
                      else erase_loop s b (Chain_slot a) node }"

declare erase_loop.simps [code]

definition erase ::
  "('k, 'v) traits \<Rightarrow> addr \<Rightarrow> iterator \<Rightarrow> ('k, 'v) heap \<Rightarrow> (exn + ('k, 'v) heap) option" where
  "erase T this pos s =
     do { c \<leftarrow> maps s this;
          if map_it pos \<noteq> Some this \<or> node_it pos = Some (tail c) \<or> node_it pos = Some (head c)
          then Some (Inl invalid_iterator)
          else do {
            node \<leftarrow> node_it pos;
            n \<leftarrow> nodes s node;
            d \<leftarrow> data n;
            idx \<leftarrow> get_bucket_index T s this (fst d);
            bucket_ptr \<leftarrow> erase_loop s (buckets c) (Bucket_slot idx) node;
            p \<leftarrow> read_slot s (buckets c) bucket_ptr;
            s1 \<leftarrow> (case p of
                     None \<Rightarrow> Some s
                   | Some _ \<Rightarrow> write_slot (buckets c) bucket_ptr (next_in_bucket n) s);
            s2 \<leftarrow> remove_from_order_list (Some node) s1;
            s3 \<leftarrow> delete_Node node s2;
            c3 \<leftarrow> maps s3 this;
            Some (Inr (set_map this
                         (c3\<lparr>element_count :=
                               (if element_count c3 = 0 then 2 ^ 64 - 1
                                else element_count c3 - 1)\<rparr>) s3)) } }"

definition count :: "('k, 'v) traits \<Rightarrow> ('k, 'v) heap \<Rightarrow> addr \<Rightarrow> 'k \<Rightarrow> nat option" where
  "count T s this key =
     do { idx \<leftarrow> get_bucket_index T s this key;
          node \<leftarrow> find_in_bucket T s this key idx;
          Some (if node \<noteq> None then 1 else 0) }"

definition find_lhm ::
  "('k, 'v) traits \<Rightarrow> ('k, 'v) heap \<Rightarrow> addr \<Rightarrow> 'k \<Rightarrow> iterator option" where
  "find_lhm T s this key =
     do { idx \<leftarrow> get_bucket_index T s this key;
          node \<leftarrow> find_in_bucket T s this key idx;
          if node \<noteq> None then Some \<lparr>node_it = node, map_it = Some this\<rparr> else end_it s this }"

text \<open>
  \<^verbatim>\<open>at\<close> (both overloads) and the mutating \<^verbatim>\<open>operator[]\<close> return a reference to the
  \<open>second\<close> component of a node's payload.  The reference is the address of the node;
  \<open>read_ref\<close> and \<open>write_ref\<close> are what the caller can do with it.
\<close>

definition at :: "('k, 'v) traits \<Rightarrow> ('k, 'v) heap \<Rightarrow> addr \<Rightarrow> 'k \<Rightarrow> (exn + addr) option" where
  "at T s this key =
     do { idx \<leftarrow> get_bucket_index T s this key;
          node \<leftarrow> find_in_bucket T s this key idx;
          case node of
            None \<Rightarrow> Some (Inl index_out_of_bound)
          | Some a \<Rightarrow> do { n \<leftarrow> nodes s a; d \<leftarrow> data n; Some (Inr a) } }"

definition read_ref :: "('k, 'v) heap \<Rightarrow> addr \<Rightarrow> 'v option" where
  "read_ref s r = do { n \<leftarrow> nodes s r; d \<leftarrow> data n; Some (snd d) }"

definition write_ref :: "addr \<Rightarrow> 'v \<Rightarrow> ('k, 'v) heap \<Rightarrow> ('k, 'v) heap option" where
  "write_ref r v s =
     do { n \<leftarrow> nodes s r; d \<leftarrow> data n; Some (store r (n\<lparr>data := Some (fst d, v)\<rparr>) s) }"

definition subscript ::
  "('k, 'v) traits \<Rightarrow> addr \<Rightarrow> 'k \<Rightarrow> ('k, 'v) heap \<Rightarrow> (addr \<times> ('k, 'v) heap) option" where
  "subscript T this key s =
     do { idx \<leftarrow> get_bucket_index T s this key;
          node \<leftarrow> find_in_bucket T s this key idx;
          case node of
            Some a \<Rightarrow> do { n \<leftarrow> nodes s a; d \<leftarrow> data n; Some (a, s) }
          | None \<Rightarrow>
              do { (result, s1) \<leftarrow> insert_lhm T this (key, default_T T) s;
                   a \<leftarrow> node_it (fst result);
                   n \<leftarrow> nodes s1 a;
                   d \<leftarrow> data n;
                   Some (a, s1) } }"

text \<open>The read-only \<^verbatim>\<open>operator[]\<close> is \<^verbatim>\<open>return at(key)\<close>.\<close>

definition subscript_const ::
  "('k, 'v) traits \<Rightarrow> ('k, 'v) heap \<Rightarrow> addr \<Rightarrow> 'k \<Rightarrow> (exn + addr) option" where
  "subscript_const T s this key = at T s this key"

definition clear :: "addr \<Rightarrow> ('k, 'v) heap \<Rightarrow> ('k, 'v) heap option" where
  "clear this s =
     do { c \<leftarrow> maps s this;
          h \<leftarrow> nodes s (head c);
          s1 \<leftarrow> delete_loop this (next h) s;
          c1 \<leftarrow> maps s1 this;
          s2 \<leftarrow> set_next (Some (head c1)) (Some (tail c1)) s1;
          s3 \<leftarrow> set_prev (Some (tail c1)) (Some (head c1)) s2;
          s4 \<leftarrow> fold (\<lambda>i r. do { s' \<leftarrow> r; write_bucket (buckets c1) i None s' })
                  [0 ..< bucket_count c1] (Some s3);
          c4 \<leftarrow> maps s4 this;
          Some (set_map this (c4\<lparr>element_count := 0\<rparr>) s4) }"

subsection \<open>Construction, copy and assignment\<close>

text \<open>
  The constructors run on the raw storage at \<open>this\<close>; the members they initialise are
  written as one record.
\<close>

definition linked_hashmap_ctor :: "addr \<Rightarrow> ('k, 'v) heap \<Rightarrow> ('k, 'v) heap option" where
  "linked_hashmap_ctor this s =
     do { (h, t, s1) \<leftarrow> init_sentinels s;
          (b, s2) \<leftarrow> Some (init_buckets INITIAL_BUCKET_COUNT s1);
          Some (set_map this \<lparr>head = h, tail = t, buckets = b,
                              bucket_count = INITIAL_BUCKET_COUNT, element_count = 0\<rparr> s2) }"

partial_function (option) deep_copy_loop ::
  "('k, 'v) traits \<Rightarrow> addr \<Rightarrow> addr \<Rightarrow> addr option \<Rightarrow> ('k, 'v) heap \<Rightarrow> ('k, 'v) heap option" where
  "deep_copy_loop T this other node s =
     do { c \<leftarrow> maps s other;
          if node = Some (tail c) then Some s
          else do {
            n \<leftarrow> load s node;
            d \<leftarrow> data n;
            (_, s1) \<leftarrow> insert_lhm T this d s;
            n1 \<leftarrow> load s1 node;
            deep_copy_loop T this other (next n1) s1 } }"

declare deep_copy_loop.simps [code]

definition deep_copy ::
  "('k, 'v) traits \<Rightarrow> addr \<Rightarrow> addr \<Rightarrow> ('k, 'v) heap \<Rightarrow> ('k, 'v) heap option" where
  "deep_copy T this other s =
     do { (h, t, s1) \<leftarrow> init_sentinels s;
          c \<leftarrow> maps s1 other;
          (b, s2) \<leftarrow> Some (init_buckets (bucket_count c) s1);
          s3 \<leftarrow> Some (set_map this \<lparr>head = h, tail = t, buckets = b,
                                    bucket_count = bucket_count c, element_count = 0\<rparr> s2);
          c3 \<leftarrow> maps s3 other;
          oh \<leftarrow> nodes s3 (head c3);
          deep_copy_loop T this other (next oh) s3 }"

definition linked_hashmap_copy_ctor ::
  "('k, 'v) traits \<Rightarrow> addr \<Rightarrow> addr \<Rightarrow> ('k, 'v) heap \<Rightarrow> ('k, 'v) heap option" where
  "linked_hashmap_copy_ctor T this other s = deep_copy T this other s"

definition assign ::
  "('k, 'v) traits \<Rightarrow> addr \<Rightarrow> addr \<Rightarrow> ('k, 'v) heap \<Rightarrow> ('k, 'v) heap option" where
  "assign T this other s =
     (if this \<noteq> other then do { s1 \<leftarrow> clear_all this s; deep_copy T this other s1 }
      else Some s)"

subsection \<open>Walking a container with its cursors\<close>

text \<open>
  The caller's loop \<^verbatim>\<open>for (it = m.begin(); it != m.end(); ++it) visit(*it);\<close> from the
  cursor \<open>it\<close> on: the list of the pairs visited.
\<close>

partial_function (option) walk ::
  "('k, 'v) heap \<Rightarrow> addr \<Rightarrow> iterator \<Rightarrow> ('k \<times> 'v) list option" where
  "walk s this it =
     do { e \<leftarrow> end_it s this;
          if iter_neq it e
          then do { x \<leftarrow> iter_deref s it;
                    r \<leftarrow> iter_inc s it;
                    case r of
                      Inl _ \<Rightarrow> None
                    | Inr it' \<Rightarrow> do { xs \<leftarrow> walk s this it'; Some (x # xs) } }
          else Some [] }"

declare walk.simps [code]

definition iterate :: "('k, 'v) heap \<Rightarrow> addr \<Rightarrow> ('k \<times> 'v) list option" where
  "iterate s this = do { it \<leftarrow> begin_it s this; walk s this it }"

section \<open>Abstraction and invariants\<close>

definition next_of :: "('k, 'v) heap \<Rightarrow> addr \<rightharpoonup> addr option" where
  "next_of s a = map_option next (nodes s a)"

definition prev_of :: "('k, 'v) heap \<Rightarrow> addr \<rightharpoonup> addr option" where
  "prev_of s a = map_option prev (nodes s a)"

definition nib_of :: "('k, 'v) heap \<Rightarrow> addr \<rightharpoonup> addr option" where
  "nib_of s a = map_option next_in_bucket (nodes s a)"

definition entry :: "('k, 'v) heap \<Rightarrow> addr \<rightharpoonup> 'k \<times> 'v" where
  "entry s a = Option.bind (nodes s a) data"

definition Link :: "(addr \<rightharpoonup> addr option) \<Rightarrow> (addr \<rightharpoonup> addr option) \<Rightarrow> addr \<Rightarrow> addr \<Rightarrow> bool" where
  "Link nx pv p q = (nx p = Some (Some q) \<and> pv q = Some (Some p))"

definition dll ::
  "(addr \<rightharpoonup> addr option) \<Rightarrow> (addr \<rightharpoonup> addr option) \<Rightarrow> addr \<Rightarrow> addr list \<Rightarrow> addr \<Rightarrow> bool" where
  "dll nx pv p as q = successively (Link nx pv) (p # as @ [q])"

fun chain :: "(addr \<rightharpoonup> addr option) \<Rightarrow> addr option \<Rightarrow> addr list \<Rightarrow> bool" where
  "chain nb p [] = (p = None)"
| "chain nb p (a # as) = (p = Some a \<and> (case nb a of None \<Rightarrow> False | Some q \<Rightarrow> chain nb q as))"

definition hash_ok :: "('k, 'v) traits \<Rightarrow> bool" where
  "hash_ok T \<longleftrightarrow>
     (\<forall>a. equal_func T a a) \<and>
     (\<forall>a b. equal_func T a b \<longrightarrow> equal_func T b a) \<and>
     (\<forall>a b c. equal_func T a b \<longrightarrow> equal_func T b c \<longrightarrow> equal_func T a c) \<and>
     (\<forall>a b. equal_func T a b \<longrightarrow> hash_func T a = hash_func T b)"

definition keys_distinct :: "('k, 'v) traits \<Rightarrow> (addr \<rightharpoonup> 'k \<times> 'v) \<Rightarrow> addr list \<Rightarrow> bool" where
  "keys_distinct T e as \<longleftrightarrow>
     (\<forall>a\<in>set as. \<forall>b\<in>set as. \<forall>d d'.
        e a = Some d \<longrightarrow> e b = Some d' \<longrightarrow> equal_func T (fst d) (fst d') \<longrightarrow> a = b)"

definition bucket_of :: "('k, 'v) traits \<Rightarrow> (addr \<rightharpoonup> 'k \<times> 'v) \<Rightarrow> nat \<Rightarrow> addr \<Rightarrow> nat option" where
  "bucket_of T e n a = map_option (\<lambda>d. hash_func T (fst d) mod n) (e a)"

definition table_ok ::
  "('k, 'v) traits \<Rightarrow> (addr \<rightharpoonup> addr option) \<Rightarrow> (addr \<rightharpoonup> 'k \<times> 'v) \<Rightarrow> addr option list
     \<Rightarrow> nat \<Rightarrow> addr list \<Rightarrow> bool" where
  "table_ok T nb e bs n as \<longleftrightarrow>
     length bs = n \<and>
     (\<forall>i<n. \<exists>ch. chain nb (bs ! i) ch \<and> distinct ch \<and>
                 set ch = {a \<in> set as. bucket_of T e n a = Some i})"

definition lhm_struct ::
  "('k, 'v) traits \<Rightarrow> ('k, 'v) heap \<Rightarrow> linked_hashmap \<Rightarrow> addr list \<Rightarrow> bool" where
  "lhm_struct T s c as \<longleftrightarrow>
     distinct (head c # as @ [tail c]) \<and>
     dll (next_of s) (prev_of s) (head c) as (tail c) \<and>
     (\<forall>a\<in>set as. entry s a \<noteq> None) \<and>
     keys_distinct T (entry s) as \<and>
     element_count c = length as \<and>
     0 < bucket_count c \<and>
     (\<exists>bs. arrays s (buckets c) = Some bs \<and>
           table_ok T (nib_of s) (entry s) bs (bucket_count c) as) \<and>
     (\<forall>a\<in>set (head c # as @ [tail c]). a < brk s) \<and>
     buckets c < brk s"

definition lhm_inv ::
  "('k, 'v) traits \<Rightarrow> ('k, 'v) heap \<Rightarrow> linked_hashmap \<Rightarrow> addr list \<Rightarrow> bool" where
  "lhm_inv T s c as \<longleftrightarrow> lhm_struct T s c as \<and> 4 * length as \<le> 3 * bucket_count c"

text \<open>The entries of a container, in list order, and the node that holds a key.\<close>

definition contents :: "('k, 'v) heap \<Rightarrow> addr list \<Rightarrow> ('k \<times> 'v) list" where
  "contents s as = map (\<lambda>a. the (entry s a)) as"

definition holds_key :: "('k, 'v) traits \<Rightarrow> ('k, 'v) heap \<Rightarrow> 'k \<Rightarrow> addr \<Rightarrow> bool" where
  "holds_key T s key a = (case entry s a of None \<Rightarrow> False | Some d \<Rightarrow> equal_func T (fst d) key)"

definition lookup :: "('k, 'v) traits \<Rightarrow> ('k, 'v) heap \<Rightarrow> addr list \<Rightarrow> 'k \<Rightarrow> addr option" where
  "lookup T s as key = find (holds_key T s key) as"

definition owns :: "linked_hashmap \<Rightarrow> addr list \<Rightarrow> addr set" where
  "owns c as = set (head c # as @ [tail c])"

definition changes_only ::
  "addr \<Rightarrow> ('k, 'v) heap \<Rightarrow> linked_hashmap \<Rightarrow> addr list
     \<Rightarrow> ('k, 'v) heap \<Rightarrow> linked_hashmap \<Rightarrow> addr list \<Rightarrow> bool" where
  "changes_only this s c as s' c' as' \<longleftrightarrow>
     brk s \<le> brk s' \<and>
     (\<forall>a. a < brk s \<longrightarrow> a \<notin> owns c as \<longrightarrow> nodes s' a = nodes s a) \<and>
     (\<forall>b. b < brk s \<longrightarrow> b \<noteq> buckets c \<longrightarrow> arrays s' b = arrays s b) \<and>
     (\<forall>m. m \<noteq> this \<longrightarrow> maps s' m = maps s m) \<and>
     (\<forall>a\<in>owns c' as'. a \<in> owns c as \<or> brk s \<le> a) \<and>
     (buckets c' = buckets c \<or> brk s \<le> buckets c')"

definition separate :: "linked_hashmap \<Rightarrow> addr list \<Rightarrow> linked_hashmap \<Rightarrow> addr list \<Rightarrow> bool" where
  "separate c as c' as' \<longleftrightarrow> owns c as \<inter> owns c' as' = {} \<and> buckets c \<noteq> buckets c'"

definition fresh_map :: "addr \<Rightarrow> nat \<Rightarrow> ('k, 'v) heap \<Rightarrow> ('k, 'v) heap" where
  "fresh_map this n s =
     s\<lparr>nodes := (nodes s)(brk s \<mapsto> \<lparr>data = None, next_in_bucket = None, prev = None,
                                     next = Some (Suc (brk s))\<rparr>,
                           Suc (brk s) \<mapsto> \<lparr>data = None, next_in_bucket = None,
                                           prev = Some (brk s), next = None\<rparr>),
       arrays := (arrays s)(Suc (Suc (brk s)) \<mapsto> replicate n None),
       brk := Suc (Suc (Suc (brk s))),
       maps := (maps s)(this \<mapsto> \<lparr>head = brk s, tail = Suc (brk s), buckets = Suc (Suc (brk s)),
                                  bucket_count = n, element_count = 0\<rparr>)\<rparr>"

text \<open>The cursor on the \<open>i\<close>-th position of a container: a live entry, or past the end.\<close>

definition cursor :: "addr \<Rightarrow> linked_hashmap \<Rightarrow> addr list \<Rightarrow> nat \<Rightarrow> iterator" where
  "cursor this c as i = \<lparr>node_it = Some ((as @ [tail c]) ! i), map_it = Some this\<rparr>"

text \<open>
  What a caller can do with one container.  \<open>Erase k\<close> is \<^verbatim>\<open>m.erase(m.find(k))\<close>,
  \<open>Assign_subscript k v\<close> is \<^verbatim>\<open>m[k] = v\<close>, \<open>Assign_at k v\<close> is \<^verbatim>\<open>m.at(k) = v\<close> and
  \<open>Self_assign\<close> is \<^verbatim>\<open>m = m\<close>; the others call the member of the same name and drop what
  it returns.
\<close>

datatype ('k, 'v) call =
    Insert 'k 'v
  | Erase 'k
  | Clear
  | At 'k
  | Find 'k
  | Count 'k
  | Subscript 'k
  | Assign_subscript 'k 'v
  | Assign_at 'k 'v
  | Self_assign

fun run_call ::
  "('k, 'v) traits \<Rightarrow> addr \<Rightarrow> ('k, 'v) call \<Rightarrow> ('k, 'v) heap \<Rightarrow> (exn + ('k, 'v) heap) option" where
  "run_call T this (Insert k v) s = do { (_, s') \<leftarrow> insert_lhm T this (k, v) s; Some (Inr s') }"
| "run_call T this (Erase k) s = do { it \<leftarrow> find_lhm T s this k; erase T this it s }"
| "run_call T this Clear s = do { s' \<leftarrow> clear this s; Some (Inr s') }"
| "run_call T this (At k) s =
     do { r \<leftarrow> at T s this k; Some (case r of Inl e \<Rightarrow> Inl e | Inr _ \<Rightarrow> Inr s) }"
| "run_call T this (Find k) s = do { _ \<leftarrow> find_lhm T s this k; Some (Inr s) }"
| "run_call T this (Count k) s = do { _ \<leftarrow> count T s this k; Some (Inr s) }"
| "run_call T this (Subscript k) s = do { (_, s') \<leftarrow> subscript T this k s; Some (Inr s') }"
| "run_call T this (Assign_subscript k v) s =
     do { (r, s1) \<leftarrow> subscript T this k s; s2 \<leftarrow> write_ref r v s1; Some (Inr s2) }"
| "run_call T this (Assign_at k v) s =
     do { r \<leftarrow> at T s this k;
          case r of Inl e \<Rightarrow> Some (Inl e)
          | Inr a \<Rightarrow> do { s' \<leftarrow> write_ref a v s; Some (Inr s') } }"
| "run_call T this Self_assign s = do { s' \<leftarrow> assign T this this s; Some (Inr s') }"

text \<open>
  A sequence of calls; an exception ends it.  The result is the exception, if any, and
  the store when the sequence ended.
\<close>

fun run_calls ::
  "('k, 'v) traits \<Rightarrow> addr \<Rightarrow> ('k, 'v) call list \<Rightarrow> ('k, 'v) heap
     \<Rightarrow> (exn option \<times> ('k, 'v) heap) option" where
  "run_calls T this [] s = Some (None, s)"
| "run_calls T this (x # xs) s =
     do { r \<leftarrow> run_call T this x s;
          case r of Inl e \<Rightarrow> Some (Some e, s) | Inr s' \<Rightarrow> run_calls T this xs s' }"

text \<open>An instance for examples: keys and values are natural numbers, hashed by themselves.\<close>

definition nat_traits :: "(nat, nat) traits" where
  "nat_traits = \<lparr>hash_func = id, equal_func = (=), default_T = 0\<rparr>"

definition empty_heap :: "(nat, nat) heap" where
  "empty_heap = \<lparr>nodes = Map.empty, arrays = Map.empty, maps = Map.empty, brk = 0\<rparr>"

text \<open>What every call guarantees when it returns without an exception.\<close>

definition step_ok ::
  "('k, 'v) traits \<Rightarrow> addr \<Rightarrow> ('k, 'v) heap \<Rightarrow> linked_hashmap \<Rightarrow> addr list
     \<Rightarrow> ('k, 'v) heap \<Rightarrow> bool" where
  "step_ok T this s c as s' \<longleftrightarrow>
     (\<exists>c' as'. maps s' this = Some c' \<and> lhm_inv T s' c' as' \<and>
        changes_only this s c as s' c' as' \<and> bucket_count c \<le> bucket_count c' \<and>
        head c' = head c \<and> tail c' = tail c)"

text \<open>
  The scripts of the order-preservation property: insertions of keys that differ from
  every key inserted before, with lookups in between; \<^verbatim>\<open>at\<close> and \<^verbatim>\<open>operator[]\<close> only on keys
  that are present.  \<open>seen\<close> is the list of the keys inserted so far.
\<close>

fun script_ok :: "('k, 'v) traits \<Rightarrow> 'k list \<Rightarrow> ('k, 'v) call list \<Rightarrow> bool" where
  "script_ok T seen [] = True"
| "script_ok T seen (Insert k v # cs) =
     (list_all (\<lambda>k'. \<not> equal_func T k' k) seen \<and> script_ok T (seen @ [k]) cs)"
| "script_ok T seen (At k # cs) = (list_ex (\<lambda>k'. equal_func T k' k) seen \<and> script_ok T seen cs)"
| "script_ok T seen (Subscript k # cs) =
     (list_ex (\<lambda>k'. equal_func T k' k) seen \<and> script_ok T seen cs)"
| "script_ok T seen (Find k # cs) = script_ok T seen cs"
| "script_ok T seen (Count k # cs) = script_ok T seen cs"
| "script_ok T seen (_ # cs) = False"

fun inserted :: "('k, 'v) call list \<Rightarrow> ('k \<times> 'v) list" where
  "inserted [] = []"
| "inserted (Insert k v # cs) = (k, v) # inserted cs"
| "inserted (_ # cs) = inserted cs"

text \<open>Two containers of one store that share no node and no bucket array.\<close>

definition independent :: "('k, 'v) traits \<Rightarrow> ('k, 'v) heap \<Rightarrow> addr \<Rightarrow> addr \<Rightarrow> bool" where
  "independent T s this other \<longleftrightarrow>
     (\<exists>c as co aso. maps s this = Some c \<and> lhm_inv T s c as \<and>
        maps s other = Some co \<and> lhm_inv T s co aso \<and> separate c as co aso)"

text \<open>
  The bucket count after a script of insertions of new keys, from the bucket count and the
  number of entries before it: the growth rule of \<^verbatim>\<open>insert\<close>, applied once per insertion.
\<close>

fun buckets_after :: "nat \<Rightarrow> nat \<Rightarrow> ('k, 'v) call list \<Rightarrow> nat" where
  "buckets_after bc n [] = bc"
| "buckets_after bc n (Insert k v # cs) =
     buckets_after (if 3 * bc < 4 * (n + 1) then bc * 2 else bc) (Suc n) cs"
| "buckets_after bc n (_ # cs) = buckets_after bc n cs"

text \<open>
  What a copy guarantees: the store \<open>s'\<close> holds at \<open>this\<close> a container with the entries \<open>kvs\<close> of
  the source in the source's order, with as many buckets as the source has, in a bucket
  array of its own; the source at \<open>other\<close> is as it was; and after any sequence of calls on
  the copy the source still has its members, its size and its entries in their order.
\<close>

definition copy_of ::
  "('k, 'v) traits \<Rightarrow> addr \<Rightarrow> addr \<Rightarrow> linked_hashmap \<Rightarrow> ('k \<times> 'v) list \<Rightarrow> ('k, 'v) heap
     \<Rightarrow> bool" where
  "copy_of T this other co kvs s' \<longleftrightarrow>
     (\<exists>c'. maps s' this = Some c' \<and> maps s' other = Some co \<and> independent T s' this other \<and>
        iterate s' this = Some kvs \<and> size_lhm s' this = Some (length kvs) \<and>
        iterate s' other = Some kvs \<and> size_lhm s' other = Some (length kvs) \<and>
        bucket_count c' = bucket_count co \<and> buckets c' \<noteq> buckets co \<and>
        (\<forall>cs. \<exists>e s''. run_calls T this cs s' = Some (e, s'') \<and>
           maps s'' other = Some co \<and> independent T s'' this other \<and>
           iterate s'' other = Some kvs \<and> size_lhm s'' other = Some (length kvs)))"

text \<open>
  A store with two containers: thirteen entries are inserted into a new container at
  address 0, and a second container is constructed at address 1.
\<close>

definition two_maps :: "(nat, nat) heap option" where
  "two_maps =
     do { s1 \<leftarrow> linked_hashmap_ctor 0 empty_heap;
          (_, s2) \<leftarrow> run_calls nat_traits 0
                       [Insert 1 10, Insert 2 20, Insert 3 30, Insert 4 40, Insert 5 50,
                        Insert 6 60, Insert 7 70, Insert 8 80, Insert 9 90, Insert 10 100,
                        Insert 11 110, Insert 12 120, Insert 13 130] s1;
          linked_hashmap_ctor 1 s2 }"

text \<open>
  In that store the second, empty container is assigned to the first: the bucket counts of
  the first container before and after the assignment.
\<close>

definition shrink_example :: "(nat \<times> nat) option" where
  "shrink_example =
     do { s \<leftarrow> two_maps;
          c \<leftarrow> maps s 0;
          s' \<leftarrow> assign nat_traits 0 1 s;
          c' \<leftarrow> maps s' 0;
          Some (bucket_count c, bucket_count c') }"


section \<open>Properties\<close>

subsection \<open>Field views of the node store\<close>

lemma chain_Cons:
  "chain nb p (a # as) \<longleftrightarrow> p = Some a \<and> (\<exists>q. nb a = Some q \<and> chain nb q as)"
  by (auto split: option.splits)

declare chain.simps(2) [simp del]

lemma view_store:
  "next_of (store a n s) = (next_of s)(a \<mapsto> next n)"
  "prev_of (store a n s) = (prev_of s)(a \<mapsto> prev n)"
  "nib_of (store a n s) = (nib_of s)(a \<mapsto> next_in_bucket n)"
  "entry (store a n s) = (entry s)(a := data n)"
  "arrays (store a n s) = arrays s"
  "maps (store a n s) = maps s"
  "brk (store a n s) = brk s"
  "nodes (store a n s) = (nodes s)(a \<mapsto> n)"
  by (auto simp: next_of_def prev_of_def nib_of_def entry_def store_def fun_eq_iff)

lemma view_nodes:
  "nodes s a = Some n \<Longrightarrow> next_of s a = Some (next n)"
  "nodes s a = Some n \<Longrightarrow> prev_of s a = Some (prev n)"
  "nodes s a = Some n \<Longrightarrow> nib_of s a = Some (next_in_bucket n)"
  "nodes s a = Some n \<Longrightarrow> entry s a = data n"
  by (auto simp: next_of_def prev_of_def nib_of_def entry_def)

lemma chain_cong: "(\<forall>a\<in>set ch. nb' a = nb a) \<Longrightarrow> chain nb' p ch = chain nb p ch"
  by (induction ch arbitrary: p) (auto simp: chain_Cons)

lemma chain_upd: "a \<notin> set ch \<Longrightarrow> chain (nb(a := v)) p ch = chain nb p ch"
  by (rule chain_cong) simp

lemma chain_unique: "chain nb p xs \<Longrightarrow> chain nb p ys \<Longrightarrow> xs = ys"
proof (induction xs arbitrary: p ys)
  case Nil then show ?case by (cases ys) (auto simp: chain_Cons)
next
  case (Cons a xs) then show ?case by (cases ys) (auto simp: chain_Cons)
qed

lemma view_Some:
  "next_of s a = Some q \<longleftrightarrow> (\<exists>n. nodes s a = Some n \<and> next n = q)"
  "prev_of s a = Some q \<longleftrightarrow> (\<exists>n. nodes s a = Some n \<and> prev n = q)"
  "nib_of s a = Some q \<longleftrightarrow> (\<exists>n. nodes s a = Some n \<and> next_in_bucket n = q)"
  "entry s a = Some d \<longleftrightarrow> (\<exists>n. nodes s a = Some n \<and> data n = Some d)"
  by (auto simp: next_of_def prev_of_def nib_of_def entry_def split: Option.bind_splits)

lemma dll_cong:
  assumes "\<forall>a\<in>set (p # as @ [q]). nx' a = nx a \<and> pv' a = pv a"
  shows "dll nx' pv' p as q = dll nx pv p as q"
  unfolding dll_def
proof (rule successively_cong)
  fix x y assume "x \<in> set (p # as @ [q])" "y \<in> set (p # as @ [q])"
  then show "Link nx' pv' x y = Link nx pv x y" using assms by (auto simp: Link_def)
qed simp

lemma successively_Link_next:
  "successively (Link nx pv) (L @ a # b # R) \<Longrightarrow> nx a = Some (Some b) \<and> pv b = Some (Some a)"
  by (simp add: successively_append_iff successively_Cons Link_def)

lemma find_in_bucket_loop_chain:
  assumes "chain (nib_of s) p ch" "\<forall>a\<in>set ch. entry s a \<noteq> None"
  shows "find_in_bucket_loop T s key p = Some (find (holds_key T s key) ch)"
  using assms
proof (induction ch arbitrary: p)
  case Nil
  then show ?case by (simp add: find_in_bucket_loop.simps)
next
  case (Cons a ch)
  from Cons.prems(1) obtain q where p: "p = Some a" and q: "nib_of s a = Some q"
    and ch: "chain (nib_of s) q ch"
    by (auto simp: chain_Cons)
  from q obtain n where n: "nodes s a = Some n" "next_in_bucket n = q"
    by (auto simp: view_Some)
  from Cons.prems(2) n obtain d where d: "data n = Some d"
    by (auto simp: entry_def)
  have "find_in_bucket_loop T s key q = Some (find (holds_key T s key) ch)"
    using Cons.IH[OF ch] Cons.prems(2) by simp
  then show ?case
    using n d p by (subst find_in_bucket_loop.simps) (simp add: holds_key_def entry_def)
qed

lemma find_unique:
  assumes "\<And>a b. a \<in> set xs \<union> set ys \<Longrightarrow> b \<in> set xs \<union> set ys \<Longrightarrow> P a \<Longrightarrow> P b \<Longrightarrow> a = b"
    and "\<And>a. a \<in> set xs \<Longrightarrow> P a \<Longrightarrow> a \<in> set ys" "\<And>a. a \<in> set ys \<Longrightarrow> P a \<Longrightarrow> a \<in> set xs"
  shows "find P xs = find P ys"
proof (cases "find P xs")
  case None
  then have "\<forall>a\<in>set ys. \<not> P a" using assms(3) by (auto simp: find_None_iff)
  then show ?thesis using None by (simp add: find_None_iff2)
next
  case (Some a)
  then have a: "a \<in> set xs" "P a" by (auto simp: find_Some_iff)
  then have "a \<in> set ys" using assms(2) by simp
  then obtain b where b: "find P ys = Some b" using a by (cases "find P ys") (auto simp: find_None_iff)
  then have "b \<in> set ys" "P b" by (auto simp: find_Some_iff)
  then have "a = b" using a assms(1)[of a b] by auto
  then show ?thesis using Some b by simp
qed

lemma lookup_spec:
  assumes "hash_ok T" "lhm_struct T s c as" "maps s this = Some c"
  shows "get_bucket_index T s this key = Some (hash_func T key mod bucket_count c)"
    and "find_in_bucket T s this key (hash_func T key mod bucket_count c) = Some (lookup T s as key)"
proof -
  let ?i = "hash_func T key mod bucket_count c"
  have bc: "0 < bucket_count c" using assms(2) by (simp add: lhm_struct_def)
  show "get_bucket_index T s this key = Some ?i"
    using assms(3) bc by (simp add: get_bucket_index_def)
  from assms(2) obtain bs where bs: "arrays s (buckets c) = Some bs"
    and tab: "table_ok T (nib_of s) (entry s) bs (bucket_count c) as"
    by (auto simp: lhm_struct_def)
  have i: "?i < bucket_count c" using bc by simp
  with tab obtain ch where ch: "chain (nib_of s) (bs ! ?i) ch"
    and set_ch: "set ch = {a \<in> set as. bucket_of T (entry s) (bucket_count c) a = Some ?i}"
    and len: "length bs = bucket_count c"
    by (auto simp: table_ok_def)
  have ent: "\<forall>a\<in>set as. entry s a \<noteq> None" and kd: "keys_distinct T (entry s) as"
    using assms(2) by (auto simp: lhm_struct_def)
  have "find_in_bucket_loop T s key (bs ! ?i) = Some (find (holds_key T s key) ch)"
    using ch ent set_ch by (intro find_in_bucket_loop_chain) auto
  moreover have "find (holds_key T s key) ch = find (holds_key T s key) as"
  proof (rule find_unique)
    fix a b assume ab: "a \<in> set ch \<union> set as" "b \<in> set ch \<union> set as"
      and h: "holds_key T s key a" "holds_key T s key b"
    from ab set_ch have ab': "a \<in> set as" "b \<in> set as" by auto
    from h obtain d d' where d: "entry s a = Some d" "entry s b = Some d'"
      "equal_func T (fst d) key" "equal_func T (fst d') key"
      by (auto simp: holds_key_def split: option.splits)
    have "equal_func T (fst d) (fst d')"
      using d(3,4) assms(1) unfolding hash_ok_def by blast
    then show "a = b"
      using kd ab' d(1,2) unfolding keys_distinct_def by blast
  next
    fix a assume "a \<in> set ch" "holds_key T s key a"
    then show "a \<in> set as" using set_ch by auto
  next
    fix a assume a: "a \<in> set as" "holds_key T s key a"
    then obtain d where d: "entry s a = Some d" "equal_func T (fst d) key"
      by (auto simp: holds_key_def split: option.splits)
    then have "hash_func T (fst d) = hash_func T key"
      using assms(1) unfolding hash_ok_def by blast
    then show "a \<in> set ch"
      using set_ch a(1) d(1) by (cases d) (simp add: bucket_of_def)
  qed
  ultimately show "find_in_bucket T s this key ?i = Some (lookup T s as key)"
    using assms(3) bs i len by (simp add: find_in_bucket_def read_bucket_def lookup_def)
qed

lemma view_idem:
  "nodes s a = Some n \<Longrightarrow> (next_of s)(a \<mapsto> next n) = next_of s"
  "nodes s a = Some n \<Longrightarrow> (prev_of s)(a \<mapsto> prev n) = prev_of s"
  "nodes s a = Some n \<Longrightarrow> (nib_of s)(a \<mapsto> next_in_bucket n) = nib_of s"
  "nodes s a = Some n \<Longrightarrow> (entry s)(a := data n) = entry s"
  by (auto simp: next_of_def prev_of_def nib_of_def entry_def fun_eq_iff)

lemma insert_to_order_list_spec:
  assumes "nodes s n = Some nn" "nodes s q = Some qn" "prev qn = Some l" "nodes s l = Some ln"
    and "n \<noteq> q" "l \<noteq> q" "l \<noteq> n"
  shows "insert_to_order_list (Some n) (Some q) s =
           Some (store q (qn\<lparr>prev := Some n\<rparr>) (store l (ln\<lparr>next := Some n\<rparr>)
                  (store n (nn\<lparr>prev := Some l, next := Some q\<rparr>) s)))"
  using assms
  by (simp add: insert_to_order_list_def load_def set_prev_def set_next_def view_store)

lemma insert_to_order_list_views:
  assumes "nodes s n = Some nn" "nodes s q = Some qn" "prev qn = Some l" "nodes s l = Some ln"
    and "n \<noteq> q" "l \<noteq> q" "l \<noteq> n"
    and "insert_to_order_list (Some n) (Some q) s = Some s'"
  shows "next_of s' = (next_of s)(n \<mapsto> Some q, l \<mapsto> Some n)"
    "prev_of s' = (prev_of s)(n \<mapsto> Some l, q \<mapsto> Some n)"
    "nib_of s' = nib_of s" "entry s' = entry s"
    "arrays s' = arrays s" "maps s' = maps s" "brk s' = brk s"
  using assms(8) unfolding insert_to_order_list_spec[OF assms(1-7)]
  using assms(1-7)
  by (auto simp: view_store fun_eq_iff view_nodes)

lemma dll_last:
  assumes "dll nx pv p as q"
  shows "nx (last (p # as)) = Some (Some q)" "pv q = Some (Some (last (p # as)))"
proof -
  have "(p # as) @ [q] = (butlast (p # as) @ [last (p # as)]) @ [q]"
    by (simp only: append_butlast_last_id[of "p # as"] list.distinct not_False_eq_True)
  then have "p # as @ [q] = butlast (p # as) @ last (p # as) # q # []"
    by (simp only: append.assoc append_Cons append_Nil)
  then have "successively (Link nx pv) (butlast (p # as) @ last (p # as) # q # [])"
    using assms by (simp only: dll_def)
  then show "nx (last (p # as)) = Some (Some q)" "pv q = Some (Some (last (p # as)))"
    using successively_Link_next by blast+
qed

lemma dll_first:
  assumes "dll nx pv p as q"
  shows "nx p = Some (Some (hd (as @ [q])))" "pv (hd (as @ [q])) = Some (Some p)"
  using assms by (cases as; simp add: dll_def Link_def)+

lemma dll_snoc:
  assumes d: "dll nx pv p as q" and dist: "distinct (p # as @ [q])"
    and n: "n \<notin> set (p # as @ [q])" and l: "l = last (p # as)"
  shows "dll (nx(n \<mapsto> Some q, l \<mapsto> Some n)) (pv(n \<mapsto> Some l, q \<mapsto> Some n)) p (as @ [n]) q"
proof -
  let ?nx = "nx(n \<mapsto> Some q, l \<mapsto> Some n)" and ?pv = "pv(n \<mapsto> Some l, q \<mapsto> Some n)"
  have lq: "nx l = Some (Some q)" using dll_last(1)[OF d] l by simp
  have lin: "l \<in> set (p # as)" unfolding l by (rule last_in_set) simp
  have "successively (Link nx pv) ((p # as) @ [q])"
    using d by (simp only: dll_def append_Cons)
  then have old: "successively (Link nx pv) (p # as)"
    by (simp only: successively_append_iff)
  have pre: "successively (Link ?nx ?pv) (p # as)"
  proof (rule successively_mono[OF old])
    fix x y assume xy: "x \<in> set (p # as)" "y \<in> set (p # as)" "Link nx pv x y"
    have "x \<noteq> l"
    proof
      assume "x = l"
      with xy(3) lq have "y = q" by (simp add: Link_def)
      with xy(2) dist show False by auto
    qed
    moreover have "x \<noteq> n" "y \<noteq> n" "y \<noteq> q" using xy(1,2) n dist by auto
    ultimately show "Link ?nx ?pv x y" using xy(3) by (simp add: Link_def)
  qed
  have nl: "n \<noteq> l" "n \<noteq> q" using n lin by auto
  have "Link ?nx ?pv l n" "Link ?nx ?pv n q"
    using nl by (auto simp: Link_def)
  moreover have "p # (as @ [n]) @ [q] = (p # as) @ [n, q]" by simp
  ultimately show ?thesis
    unfolding dll_def using pre l
    by (simp only: successively_append_iff) simp
qed

lemma table_ok_insert:
  assumes t: "table_ok T nb e bs m as" and n: "n \<notin> set as"
    and i: "i = hash_func T k mod m" "0 < m"
  shows "table_ok T (nb(n \<mapsto> bs ! i)) (e(n \<mapsto> (k, v))) (bs[i := Some n]) m (as @ [n])"
  unfolding table_ok_def
proof (intro conjI allI impI)
  show "length (bs[i := Some n]) = m" using t by (simp add: table_ok_def)
next
  fix j assume j: "j < m"
  let ?nb = "nb(n \<mapsto> bs ! i)" and ?e = "e(n \<mapsto> (k, v))"
  from t j obtain ch where ch: "chain nb (bs ! j) ch" "distinct ch"
    "set ch = {a \<in> set as. bucket_of T e m a = Some j}" and len: "length bs = m"
    by (auto simp: table_ok_def)
  have nch: "n \<notin> set ch" using ch(3) n by auto
  have same: "\<And>a. a \<in> set as \<Longrightarrow> bucket_of T ?e m a = bucket_of T e m a"
    using n by (auto simp: bucket_of_def)
  have bn: "bucket_of T ?e m n = Some i" using i by (simp add: bucket_of_def)
  have ilt: "i < m" using i by simp
  show "\<exists>ch. chain ?nb (bs[i := Some n] ! j) ch \<and> distinct ch \<and>
             set ch = {a \<in> set (as @ [n]). bucket_of T ?e m a = Some j}"
  proof (cases "j = i")
    case True
    have "chain ?nb (Some n) (n # ch)"
      using ch(1) nch True by (simp add: chain_upd chain_Cons)
    moreover have "set (n # ch) = {a \<in> set (as @ [n]). bucket_of T ?e m a = Some j}"
      using ch(3) same bn True by auto
    ultimately show ?thesis
      using True ilt len ch(2) nch by (intro exI[of _ "n # ch"]) simp
  next
    case False
    have "chain ?nb (bs ! j) ch" using ch(1) nch by (simp add: chain_upd)
    moreover have "set ch = {a \<in> set (as @ [n]). bucket_of T ?e m a = Some j}"
      using ch(3) same bn False by auto
    ultimately show ?thesis
      using False ch(2) by (intro exI[of _ ch]) simp
  qed
qed

lemma lookup_None_iff:
  "lookup T s as key = None \<longleftrightarrow> (\<forall>a\<in>set as. \<not> holds_key T s key a)"
  by (auto simp: lookup_def find_None_iff)

lemma lookup_SomeD:
  "lookup T s as key = Some a \<Longrightarrow> a \<in> set as \<and> holds_key T s key a"
  by (auto simp: lookup_def find_Some_iff)

lemma keys_distinct_snoc:
  assumes "hash_ok T" "keys_distinct T e as" "n \<notin> set as"
    and "\<forall>a\<in>set as. \<forall>d. e a = Some d \<longrightarrow> \<not> equal_func T (fst d) k"
  shows "keys_distinct T (e(n \<mapsto> (k, v))) (as @ [n])"
proof -
  have sym: "\<And>a b. equal_func T a b \<Longrightarrow> equal_func T b a"
    using assms(1) unfolding hash_ok_def by blast
  show ?thesis
    unfolding keys_distinct_def
  proof (intro ballI allI impI)
    fix a b d d'
    assume a: "a \<in> set (as @ [n])" and b: "b \<in> set (as @ [n])"
      and d: "(e(n \<mapsto> (k, v))) a = Some d" "(e(n \<mapsto> (k, v))) b = Some d'"
      and eq: "equal_func T (fst d) (fst d')"
    consider "a = n" "b = n" | "a = n" "b \<in> set as" | "a \<in> set as" "b = n"
      | "a \<in> set as" "b \<in> set as" using a b by auto
    then show "a = b"
    proof cases
      case 1 then show ?thesis by simp
    next
      case 2
      then have "b \<noteq> n" using assms(3) by auto
      with 2 d have "e b = Some d'" "fst d = k" by auto
      with eq sym assms(4) 2 show ?thesis by blast
    next
      case 3
      then have "a \<noteq> n" using assms(3) by auto
      with 3 d have "e a = Some d" "fst d' = k" by auto
      with eq assms(4) 3 show ?thesis by blast
    next
      case 4
      then have "a \<noteq> n" "b \<noteq> n" using assms(3) by auto
      with d have "e a = Some d" "e b = Some d'" by auto
      with 4 eq assms(2) show ?thesis unfolding keys_distinct_def by blast
    qed
  qed
qed

lemma hash_ok_sym: "hash_ok T \<Longrightarrow> equal_func T a b \<Longrightarrow> equal_func T b a"
  unfolding hash_ok_def by blast

lemma hash_ok_refl: "hash_ok T \<Longrightarrow> equal_func T a a"
  unfolding hash_ok_def by blast

lemma hash_ok_trans: "hash_ok T \<Longrightarrow> equal_func T a b \<Longrightarrow> equal_func T b c \<Longrightarrow> equal_func T a c"
  unfolding hash_ok_def by blast

lemma hash_ok_hash: "hash_ok T \<Longrightarrow> equal_func T a b \<Longrightarrow> hash_func T a = hash_func T b"
  unfolding hash_ok_def by blast

lemma structD:
  assumes "lhm_struct T s c as"
  shows "distinct (head c # as @ [tail c])"
    and "dll (next_of s) (prev_of s) (head c) as (tail c)"
    and "\<forall>a\<in>set as. entry s a \<noteq> None"
    and "keys_distinct T (entry s) as"
    and "element_count c = length as"
    and "0 < bucket_count c"
    and "\<exists>bs. arrays s (buckets c) = Some bs \<and>
           table_ok T (nib_of s) (entry s) bs (bucket_count c) as"
    and "\<forall>a\<in>set (head c # as @ [tail c]). a < brk s"
    and "buckets c < brk s"
  using assms unfolding lhm_struct_def by blast+

lemma struct_table:
  assumes "lhm_struct T s c as" "arrays s (buckets c) = Some bs"
  shows "table_ok T (nib_of s) (entry s) bs (bucket_count c) as" "length bs = bucket_count c"
proof -
  from structD(7)[OF assms(1)] assms(2)
  show "table_ok T (nib_of s) (entry s) bs (bucket_count c) as" by auto
  then show "length bs = bucket_count c" unfolding table_ok_def by blast
qed

lemma struct_tail:
  assumes "lhm_struct T s c as"
  obtains tn ln where "nodes s (tail c) = Some tn" "prev tn = Some (last (head c # as))"
    "nodes s (last (head c # as)) = Some ln" "next ln = Some (tail c)"
    "last (head c # as) \<noteq> tail c" "last (head c # as) < brk s" "tail c < brk s"
proof -
  have d: "dll (next_of s) (prev_of s) (head c) as (tail c)"
    and dist: "distinct (head c # as @ [tail c])"
    and b: "\<forall>a\<in>set (head c # as @ [tail c]). a < brk s"
    using structD[OF assms] by blast+
  have lin: "last (head c # as) \<in> set (head c # as)" by (rule last_in_set) simp
  from dll_last[OF d] obtain tn ln where "nodes s (tail c) = Some tn" "prev tn = Some (last (head c # as))"
    "nodes s (last (head c # as)) = Some ln" "next ln = Some (tail c)"
    by (auto simp: view_Some)
  moreover have "last (head c # as) \<noteq> tail c" using lin dist by auto
  moreover have "last (head c # as) < brk s" "tail c < brk s" using lin b by auto
  ultimately show ?thesis using that by blast
qed

lemma insert_new_state:
  assumes L: "get_bucket_index T s this k = Some i" "find_in_bucket T s this k i = Some None"
    and M: "maps s this = Some c" and nr: "\<not> 3 * bucket_count c < 4 * (element_count c + 1)"
    and bs: "arrays s (buckets c) = Some bs" "i < length bs"
    and t: "nodes s (tail c) = Some tn" "prev tn = Some l" "nodes s l = Some ln"
    and ne: "brk s \<noteq> tail c" "brk s \<noteq> l" "tail c \<noteq> l"
  shows "insert_lhm T this (k, v) s =
     Some ((\<lparr>node_it = Some (brk s), map_it = Some this\<rparr>, True),
       s\<lparr>nodes := (nodes s)(brk s \<mapsto> \<lparr>data = Some (k, v), next_in_bucket = bs ! i,
                                      prev = Some l, next = Some (tail c)\<rparr>,
                               l \<mapsto> ln\<lparr>next := Some (brk s)\<rparr>,
                               tail c \<mapsto> tn\<lparr>prev := Some (brk s)\<rparr>),
         arrays := (arrays s)(buckets c \<mapsto> bs[i := Some (brk s)]),
         maps := (maps s)(this \<mapsto> c\<lparr>element_count := element_count c + 1\<rparr>),
         brk := Suc (brk s)\<rparr>)"
  unfolding insert_lhm_def
  using assms ne[symmetric]
  by (simp add: new_Node_def read_bucket_def set_next_in_bucket_def write_bucket_def
        insert_to_order_list_def load_def set_prev_def set_next_def set_map_def store_def)

lemma insert_new_spec:
  assumes H: "hash_ok T" and S: "lhm_struct T s c as" and M: "maps s this = Some c"
    and abs: "lookup T s as k = None"
    and nr: "\<not> 3 * bucket_count c < 4 * (element_count c + 1)"
  obtains s' c' where
    "insert_lhm T this (k, v) s = Some ((\<lparr>node_it = Some (brk s), map_it = Some this\<rparr>, True), s')"
    "maps s' this = Some c'" "lhm_struct T s' c' (as @ [brk s])"
    "entry s' = (entry s)(brk s \<mapsto> (k, v))"
    "c' = c\<lparr>element_count := Suc (length as)\<rparr>"
    "changes_only this s c as s' c' (as @ [brk s])"
    "read_bucket s' (buckets c') (hash_func T k mod bucket_count c') = Some (Some (brk s))"
proof -
  define l where "l = last (head c # as)"
  define i where "i = hash_func T k mod bucket_count c"
  define n where "n = brk s"
  from struct_tail[OF S] obtain tn ln where t: "nodes s (tail c) = Some tn" "prev tn = Some l"
    "nodes s l = Some ln" "next ln = Some (tail c)" "l \<noteq> tail c" "l < brk s" "tail c < brk s"
    unfolding l_def by blast
  from structD(7)[OF S] obtain bs where bs: "arrays s (buckets c) = Some bs" by blast
  note tab = struct_table[OF S bs]
  have bc: "0 < bucket_count c" and ec: "element_count c = length as"
    using structD(5,6)[OF S] by blast+
  have ilt: "i < length bs" using tab(2) bc by (simp add: i_def)
  have ne: "brk s \<noteq> tail c" "brk s \<noteq> l" "tail c \<noteq> l" using t(5-7) by auto
  note L = lookup_spec[OF H S M, of k, folded i_def, unfolded abs]
  define s' where "s' = s\<lparr>nodes := (nodes s)(brk s \<mapsto> \<lparr>data = Some (k, v), next_in_bucket = bs ! i,
                                      prev = Some l, next = Some (tail c)\<rparr>,
                               l \<mapsto> ln\<lparr>next := Some (brk s)\<rparr>,
                               tail c \<mapsto> tn\<lparr>prev := Some (brk s)\<rparr>),
         arrays := (arrays s)(buckets c \<mapsto> bs[i := Some (brk s)]),
         maps := (maps s)(this \<mapsto> c\<lparr>element_count := element_count c + 1\<rparr>),
         brk := Suc (brk s)\<rparr>"
  define c' where "c' = c\<lparr>element_count := Suc (length as)\<rparr>"
  have ins: "insert_lhm T this (k, v) s = Some ((\<lparr>node_it = Some (brk s), map_it = Some this\<rparr>, True), s')"
    unfolding s'_def by (rule insert_new_state[OF L M nr bs ilt t(1-3) ne])
  have views: "next_of s' = (next_of s)(n \<mapsto> Some (tail c), l \<mapsto> Some n)"
    "prev_of s' = (prev_of s)(n \<mapsto> Some l, tail c \<mapsto> Some n)"
    "nib_of s' = (nib_of s)(n \<mapsto> bs ! i)"
    "entry s' = (entry s)(n \<mapsto> (k, v))"
    using t(1-4) ne
    by (auto simp: s'_def n_def next_of_def prev_of_def nib_of_def entry_def fun_eq_iff)
  have others: "arrays s' (buckets c) = Some (bs[i := Some n])" "maps s' this = Some c'"
    "brk s' = Suc n"
    by (simp_all add: s'_def c'_def ec n_def)
  have dist: "distinct (head c # as @ [tail c])" and bnd: "\<forall>a\<in>set (head c # as @ [tail c]). a < brk s"
    using structD(1,8)[OF S] by blast+
  have nfresh: "n \<notin> set (head c # as @ [tail c])" using bnd by (auto simp: n_def)
  have st: "lhm_struct T s' c' (as @ [n])"
    unfolding lhm_struct_def
  proof (intro conjI)
    show "distinct (head c' # (as @ [n]) @ [tail c'])"
      using dist nfresh by (auto simp: c'_def)
    show "dll (next_of s') (prev_of s') (head c') (as @ [n]) (tail c')"
      unfolding views using dll_snoc[OF structD(2)[OF S] dist nfresh l_def]
      by (simp add: c'_def)
    show "\<forall>a\<in>set (as @ [n]). entry s' a \<noteq> None"
      using structD(3)[OF S] by (auto simp: views)
    show "keys_distinct T (entry s') (as @ [n])"
      unfolding views
    proof (rule keys_distinct_snoc[OF H structD(4)[OF S]])
      show "n \<notin> set as" using nfresh by simp
      show "\<forall>a\<in>set as. \<forall>d. entry s a = Some d \<longrightarrow> \<not> equal_func T (fst d) k"
        using abs by (auto simp: lookup_None_iff holds_key_def)
    qed
    show "element_count c' = length (as @ [n])" by (simp add: c'_def)
    show "0 < bucket_count c'" using bc by (simp add: c'_def)
    have "table_ok T (nib_of s') (entry s') (bs[i := Some n]) (bucket_count c) (as @ [n])"
      unfolding views using table_ok_insert[OF tab(1) _ i_def bc] nfresh by simp
    then show "\<exists>bs. arrays s' (buckets c') = Some bs \<and>
           table_ok T (nib_of s') (entry s') bs (bucket_count c') (as @ [n])"
      using others(1) by (simp add: c'_def)
    show "\<forall>a\<in>set (head c' # (as @ [n]) @ [tail c']). a < brk s'"
      using bnd by (auto simp: others c'_def n_def)
    show "buckets c' < brk s'" using structD(9)[OF S] by (simp add: others c'_def n_def)
  qed
  have lin: "l \<in> set (head c # as)" unfolding l_def by (rule last_in_set) simp
  have ch: "changes_only this s c as s' c' (as @ [n])"
    unfolding changes_only_def owns_def
    using lin by (auto simp: s'_def c'_def n_def)
  have rb: "read_bucket s' (buckets c') (hash_func T k mod bucket_count c') = Some (Some n)"
    using ilt by (simp add: read_bucket_def s'_def c'_def i_def n_def)
  show ?thesis
    using that[OF ins others(2) st[unfolded n_def] views(4)[unfolded n_def] c'_def
        ch[unfolded n_def] rb[unfolded n_def]] .
qed

lemma rehash_loop_spec:
  assumes "maps s this = Some c" "0 < n"
    and "successively (Link (next_of s) (prev_of s)) (ys @ [tail c])"
    and "distinct (ys @ [tail c])" "\<forall>a\<in>set ys. entry s a \<noteq> None"
    and "arrays s nb = Some arr" "length arr = n"
  shows "\<exists>s' arr'. rehash_loop T this nb n (Some (hd (ys @ [tail c]))) s = Some s' \<and>
     next_of s' = next_of s \<and> prev_of s' = prev_of s \<and> entry s' = entry s \<and>
     maps s' = maps s \<and> brk s' = brk s \<and>
     (\<forall>b. b \<noteq> nb \<longrightarrow> arrays s' b = arrays s b) \<and>
     (\<forall>a. a \<notin> set ys \<longrightarrow> nodes s' a = nodes s a) \<and>
     arrays s' nb = Some arr' \<and> length arr' = n \<and>
     (\<forall>j<n. \<forall>ch. chain (nib_of s) (arr ! j) ch \<longrightarrow> set ch \<inter> set ys = {} \<longrightarrow>
        chain (nib_of s') (arr' ! j)
          (rev (filter (\<lambda>a. bucket_of T (entry s) n a = Some j) ys) @ ch))"
  using assms
proof (induction ys arbitrary: s arr)
  case Nil
  then show ?case
    by (subst rehash_loop.simps) simp
next
  case (Cons a ys)
  let ?t = "tail c"
  from Cons.prems(5) obtain na d where na: "nodes s a = Some na" "data na = Some d"
    by (auto simp: view_Some)
  have at: "a \<noteq> ?t" "a \<notin> set ys" using Cons.prems(4) by auto
  have lk: "Link (next_of s) (prev_of s) a (hd (ys @ [?t]))"
    and suc: "successively (Link (next_of s) (prev_of s)) (ys @ [?t])"
    using Cons.prems(3) by (auto simp: successively_Cons)
  have nx: "next na = Some (hd (ys @ [?t]))"
    using lk na by (simp add: Link_def next_of_def)
  define j0 where "j0 = hash_func T (fst d) mod n"
  have j0: "j0 < n" using Cons.prems(2) by (simp add: j0_def)
  define s2 where "s2 = (store a (na\<lparr>next_in_bucket := arr ! j0\<rparr>) s)\<lparr>arrays :=
      (arrays s)(nb \<mapsto> arr[j0 := Some a])\<rparr>"
  have step: "rehash_loop T this nb n (Some (hd ((a # ys) @ [?t]))) s =
      rehash_loop T this nb n (Some (hd (ys @ [?t]))) s2"
    using Cons.prems(1,2,6,7) na at(1) j0 nx
    by (subst rehash_loop.simps)
      (simp add: load_def read_bucket_def set_next_in_bucket_def write_bucket_def
        j0_def[symmetric] s2_def store_def)
  have v2: "next_of s2 = next_of s" "prev_of s2 = prev_of s" "entry s2 = entry s"
    "nib_of s2 = (nib_of s)(a \<mapsto> arr ! j0)" "maps s2 = maps s" "brk s2 = brk s"
    "arrays s2 = (arrays s)(nb \<mapsto> arr[j0 := Some a])"
    "\<And>b. b \<noteq> a \<Longrightarrow> nodes s2 b = nodes s b"
    using na
    by (auto simp: s2_def store_def next_of_def prev_of_def nib_of_def entry_def fun_eq_iff)
  have "\<exists>s' arr'. rehash_loop T this nb n (Some (hd (ys @ [?t]))) s2 = Some s' \<and>
     next_of s' = next_of s2 \<and> prev_of s' = prev_of s2 \<and> entry s' = entry s2 \<and>
     maps s' = maps s2 \<and> brk s' = brk s2 \<and>
     (\<forall>b. b \<noteq> nb \<longrightarrow> arrays s' b = arrays s2 b) \<and>
     (\<forall>a. a \<notin> set ys \<longrightarrow> nodes s' a = nodes s2 a) \<and>
     arrays s' nb = Some arr' \<and> length arr' = n \<and>
     (\<forall>j<n. \<forall>ch. chain (nib_of s2) (arr[j0 := Some a] ! j) ch \<longrightarrow> set ch \<inter> set ys = {} \<longrightarrow>
        chain (nib_of s') (arr' ! j)
          (rev (filter (\<lambda>a. bucket_of T (entry s2) n a = Some j) ys) @ ch))"
  proof (rule Cons.IH)
    show "maps s2 this = Some c" using Cons.prems(1) by (simp add: v2)
    show "0 < n" by fact
    show "successively (Link (next_of s2) (prev_of s2)) (ys @ [?t])" using suc by (simp add: v2)
    show "distinct (ys @ [?t])" using Cons.prems(4) by simp
    show "\<forall>a\<in>set ys. entry s2 a \<noteq> None" using Cons.prems(5) by (simp add: v2)
    show "arrays s2 nb = Some (arr[j0 := Some a])" by (simp add: v2)
    show "length (arr[j0 := Some a]) = n" using Cons.prems(7) by simp
  qed
  then obtain s' arr' where r: "rehash_loop T this nb n (Some (hd (ys @ [?t]))) s2 = Some s'"
    "next_of s' = next_of s2" "prev_of s' = prev_of s2" "entry s' = entry s2"
    "maps s' = maps s2" "brk s' = brk s2"
    "\<forall>b. b \<noteq> nb \<longrightarrow> arrays s' b = arrays s2 b"
    "\<forall>a. a \<notin> set ys \<longrightarrow> nodes s' a = nodes s2 a"
    "arrays s' nb = Some arr'" "length arr' = n"
    and chains: "\<And>j ch. j < n \<Longrightarrow> chain (nib_of s2) (arr[j0 := Some a] ! j) ch \<Longrightarrow>
        set ch \<inter> set ys = {} \<Longrightarrow>
        chain (nib_of s') (arr' ! j)
          (rev (filter (\<lambda>a. bucket_of T (entry s2) n a = Some j) ys) @ ch)"
    by blast
  have ba: "bucket_of T (entry s) n a = Some j0"
    using na by (simp add: bucket_of_def entry_def j0_def)
  have "chain (nib_of s') (arr' ! j)
          (rev (filter (\<lambda>a. bucket_of T (entry s) n a = Some j) (a # ys)) @ ch)"
    if j: "j < n" and ch: "chain (nib_of s) (arr ! j) ch" and dj: "set ch \<inter> set (a # ys) = {}"
    for j ch
  proof (cases "j = j0")
    case True
    have "chain (nib_of s2) (arr[j0 := Some a] ! j) (a # ch)"
      using ch dj True j Cons.prems(7) by (simp add: v2 chain_upd chain_Cons)
    moreover have "set (a # ch) \<inter> set ys = {}" using dj at(2) by auto
    ultimately show ?thesis
      using chains[of j "a # ch"] j ba True by (simp add: v2)
  next
    case False
    have "chain (nib_of s2) (arr[j0 := Some a] ! j) ch"
      using ch dj False by (simp add: v2 chain_upd)
    moreover have "set ch \<inter> set ys = {}" using dj by auto
    ultimately show ?thesis
      using chains[of j ch] j ba False by (simp add: v2)
  qed
  then show ?case
    unfolding step using r at(2) by (auto simp: v2)
qed

lemma rehash_spec:
  assumes S: "lhm_struct T s c as" and M: "maps s this = Some c" and n: "0 < n"
  obtains s' c' where "rehash T this n s = Some s'" "maps s' this = Some c'"
    "lhm_struct T s' c' as" "c' = c\<lparr>buckets := brk s, bucket_count := n\<rparr>"
    "entry s' = entry s" "changes_only this s c as s' c' as" "brk s' = Suc (brk s)"
proof -
  define nb where "nb = brk s"
  define s1 where "s1 = s\<lparr>arrays := (arrays s)(nb \<mapsto> replicate n None), brk := Suc (brk s)\<rparr>"
  have v1: "next_of s1 = next_of s" "prev_of s1 = prev_of s" "entry s1 = entry s"
    "nib_of s1 = nib_of s" "maps s1 = maps s" "nodes s1 = nodes s" "brk s1 = Suc (brk s)"
    by (auto simp: s1_def next_of_def prev_of_def nib_of_def entry_def fun_eq_iff)
  note d = structD[OF S]
  from d(7) obtain bs where bs: "arrays s (buckets c) = Some bs" by blast
  have bnb: "buckets c \<noteq> nb" using d(9) by (simp add: nb_def)
  from dll_first[OF d(2)] obtain hn where hn: "nodes s (head c) = Some hn"
    "next hn = Some (hd (as @ [tail c]))"
    by (auto simp: view_Some)
  have suc: "successively (Link (next_of s1) (prev_of s1)) (as @ [tail c])"
    using d(2) by (auto simp: dll_def successively_Cons v1)
  have "\<exists>s' arr'. rehash_loop T this nb n (Some (hd (as @ [tail c]))) s1 = Some s' \<and>
     next_of s' = next_of s1 \<and> prev_of s' = prev_of s1 \<and> entry s' = entry s1 \<and>
     maps s' = maps s1 \<and> brk s' = brk s1 \<and>
     (\<forall>b. b \<noteq> nb \<longrightarrow> arrays s' b = arrays s1 b) \<and>
     (\<forall>a. a \<notin> set as \<longrightarrow> nodes s' a = nodes s1 a) \<and>
     arrays s' nb = Some arr' \<and> length arr' = n \<and>
     (\<forall>j<n. \<forall>ch. chain (nib_of s1) (replicate n None ! j) ch \<longrightarrow> set ch \<inter> set as = {} \<longrightarrow>
        chain (nib_of s') (arr' ! j)
          (rev (filter (\<lambda>a. bucket_of T (entry s1) n a = Some j) as) @ ch))"
  proof (rule rehash_loop_spec)
    show "maps s1 this = Some c" using M by (simp add: v1)
    show "0 < n" by fact
    show "successively (Link (next_of s1) (prev_of s1)) (as @ [tail c])" by fact
    show "distinct (as @ [tail c])" using d(1) by simp
    show "\<forall>a\<in>set as. entry s1 a \<noteq> None" using d(3) by (simp add: v1)
    show "arrays s1 nb = Some (replicate n None)" by (simp add: s1_def)
    show "length (replicate n None) = n" by simp
  qed
  then obtain s2 arr' where r: "rehash_loop T this nb n (Some (hd (as @ [tail c]))) s1 = Some s2"
    and v2: "next_of s2 = next_of s1" "prev_of s2 = prev_of s1" "entry s2 = entry s1"
    "maps s2 = maps s1" "brk s2 = brk s1"
    and ar2': "\<forall>b. b \<noteq> nb \<longrightarrow> arrays s2 b = arrays s1 b"
    and nd2': "\<forall>a. a \<notin> set as \<longrightarrow> nodes s2 a = nodes s1 a"
    and arr': "arrays s2 nb = Some arr'" "length arr' = n"
    and chains': "\<forall>j<n. \<forall>ch. chain (nib_of s1) (replicate n None ! j) ch \<longrightarrow> set ch \<inter> set as = {} \<longrightarrow>
        chain (nib_of s2) (arr' ! j)
          (rev (filter (\<lambda>a. bucket_of T (entry s1) n a = Some j) as) @ ch)"
    by blast
  note v2 = v2[unfolded v1]
  have ar2: "\<And>b. b \<noteq> nb \<Longrightarrow> arrays s2 b = arrays s1 b" using ar2' by blast
  have nd2: "\<And>a. a \<notin> set as \<Longrightarrow> nodes s2 a = nodes s a" using nd2' by (simp add: v1)
  have chains: "chain (nib_of s2) (arr' ! j)
          (rev (filter (\<lambda>a. bucket_of T (entry s) n a = Some j) as))" if "j < n" for j
    using chains'[rule_format, of j "[]"] that by (simp add: v1)
  have old: "arrays s2 (buckets c) = Some bs" using ar2[OF bnb] bs bnb by (simp add: s1_def)
  define c' where "c' = c\<lparr>buckets := nb, bucket_count := n\<rparr>"
  define s' where "s' = set_map this c' (s2\<lparr>arrays := (arrays s2)(buckets c := None)\<rparr>)"
  have na: "new_array n s = (nb, s1)" by (simp add: new_array_def nb_def s1_def)
  have re: "rehash T this n s = Some s'"
    unfolding rehash_def na
    using M hn r old
    by (simp add: v1 v2 delete_array_def s'_def c'_def)
  have v': "next_of s' = next_of s" "prev_of s' = prev_of s" "entry s' = entry s"
    "nib_of s' = nib_of s2" "brk s' = Suc (brk s)" "maps s' = (maps s)(this \<mapsto> c')"
    "nodes s' = nodes s2" "arrays s' = (arrays s2)(buckets c := None)"
    using v2
    by (auto simp: s'_def set_map_def next_of_def prev_of_def nib_of_def entry_def fun_eq_iff)
  have st: "lhm_struct T s' c' as"
    unfolding lhm_struct_def
  proof (intro conjI)
    show "distinct (head c' # as @ [tail c'])" using d(1) by (simp add: c'_def)
    show "dll (next_of s') (prev_of s') (head c') as (tail c')" using d(2) by (simp add: v' c'_def)
    show "\<forall>a\<in>set as. entry s' a \<noteq> None" using d(3) by (simp add: v')
    show "keys_distinct T (entry s') as" using d(4) by (simp add: v')
    show "element_count c' = length as" using d(5) by (simp add: c'_def)
    show "0 < bucket_count c'" using n by (simp add: c'_def)
    have "table_ok T (nib_of s') (entry s') arr' n as"
      unfolding table_ok_def
    proof (intro conjI allI impI)
      show "length arr' = n" by fact
      fix j assume "j < n"
      then have "chain (nib_of s') (arr' ! j)
          (rev (filter (\<lambda>a. bucket_of T (entry s) n a = Some j) as))"
        using chains by (simp add: v')
      moreover have "distinct (rev (filter (\<lambda>a. bucket_of T (entry s) n a = Some j) as))"
        using d(1) by simp
      ultimately show "\<exists>ch. chain (nib_of s') (arr' ! j) ch \<and> distinct ch \<and>
            set ch = {a \<in> set as. bucket_of T (entry s') n a = Some j}"
        by (intro exI[of _ "rev (filter (\<lambda>a. bucket_of T (entry s) n a = Some j) as)"])
          (simp add: v')
    qed
    then show "\<exists>bs. arrays s' (buckets c') = Some bs \<and>
       table_ok T (nib_of s') (entry s') bs (bucket_count c') as"
      using arr' bnb by (simp add: v' c'_def)
    show "\<forall>a\<in>set (head c' # as @ [tail c']). a < brk s'"
      using d(8) by (auto simp: v' c'_def)
    show "buckets c' < brk s'" by (simp add: v' c'_def nb_def)
  qed
  have ch: "changes_only this s c as s' c' as"
    unfolding changes_only_def owns_def
    using nd2 ar2 by (auto simp: v' c'_def nb_def s1_def)
  show ?thesis
    using that[OF re _ st c'_def[unfolded nb_def] v'(3) ch v'(5)] by (simp add: v')
qed

lemma changes_only_trans:
  assumes "changes_only this s c as s1 c1 as1" "changes_only this s1 c1 as1 s2 c2 as2"
  shows "changes_only this s c as s2 c2 as2"
  unfolding changes_only_def
proof (intro conjI allI impI ballI)
  note a = assms[unfolded changes_only_def]
  show "brk s \<le> brk s2" using a by linarith
  show "nodes s2 x = nodes s x" if "x < brk s" "x \<notin> owns c as" for x
  proof -
    have "x \<notin> owns c1 as1" using a(1) that by auto
    moreover have "x < brk s1" using a(1) that by auto
    ultimately have "nodes s2 x = nodes s1 x" using a(2) by blast
    then show ?thesis using a(1) that by simp
  qed
  show "arrays s2 b = arrays s b" if "b < brk s" "b \<noteq> buckets c" for b
  proof -
    have "b \<noteq> buckets c1" using a(1) that by auto
    moreover have "b < brk s1" using a(1) that by auto
    ultimately have "arrays s2 b = arrays s1 b" using a(2) by blast
    then show ?thesis using a(1) that by simp
  qed
  show "maps s2 m = maps s m" if "m \<noteq> this" for m using a that by simp
  show "x \<in> owns c as \<or> brk s \<le> x" if "x \<in> owns c2 as2" for x
  proof -
    have "x \<in> owns c1 as1 \<or> brk s1 \<le> x" using a(2) that by blast
    moreover have "brk s \<le> brk s1" using a(1) by blast
    ultimately show ?thesis using a(1) by fastforce
  qed
  show "buckets c2 = buckets c \<or> brk s \<le> buckets c2"
  proof -
    have "buckets c2 = buckets c1 \<or> brk s1 \<le> buckets c2" using a(2) by blast
    moreover have "brk s \<le> brk s1" "buckets c1 = buckets c \<or> brk s \<le> buckets c1" using a(1) by blast+
    ultimately show ?thesis by auto
  qed
qed

lemma changes_only_refl: "changes_only this s c as s c as"
  by (simp add: changes_only_def)

lemma lookup_cong: "entry s' = entry s \<Longrightarrow> lookup T s' as k = lookup T s as k"
  by (simp add: lookup_def holds_key_def[abs_def])

lemma insert_present:
  assumes "hash_ok T" "lhm_struct T s c as" "maps s this = Some c" "lookup T s as k = Some a"
  shows "insert_lhm T this (k, v) s = Some ((\<lparr>node_it = Some a, map_it = Some this\<rparr>, False), s)"
  using lookup_spec[OF assms(1-3), of k] assms(4)
  by (simp add: insert_lhm_def)

lemma load_arith:
  fixes n bc :: nat
  assumes "4 * n \<le> 3 * bc" "0 < bc"
  shows "\<not> 3 * (bc * 2) < 4 * (n + 1)"
  using assms by arith

lemma insert_absent:
  assumes H: "hash_ok T" and I: "lhm_inv T s c as" and M: "maps s this = Some c"
    and abs: "lookup T s as k = None"
  obtains s' c' n where
    "insert_lhm T this (k, v) s = Some ((\<lparr>node_it = Some n, map_it = Some this\<rparr>, True), s')"
    "maps s' this = Some c'" "lhm_inv T s' c' (as @ [n])"
    "entry s' = (entry s)(n \<mapsto> (k, v))" "brk s \<le> n"
    "head c' = head c" "tail c' = tail c"
    "bucket_count c' =
       (if 3 * bucket_count c < 4 * (length as + 1) then bucket_count c * 2 else bucket_count c)"
    "changes_only this s c as s' c' (as @ [n])"
    "read_bucket s' (buckets c') (hash_func T k mod bucket_count c') = Some (Some n)"
proof -
  have S: "lhm_struct T s c as" and ld: "4 * length as \<le> 3 * bucket_count c"
    using I by (simp_all add: lhm_inv_def)
  have ec: "element_count c = length as" and bc: "0 < bucket_count c"
    using structD(5,6)[OF S] by blast+
  show ?thesis
  proof (cases "3 * bucket_count c < 4 * (length as + 1)")
    case False
    then have nr: "\<not> 3 * bucket_count c < 4 * (element_count c + 1)" by (simp add: ec)
    from insert_new_spec[OF H S M abs nr, of v] obtain s' c' where r:
      "insert_lhm T this (k, v) s = Some ((\<lparr>node_it = Some (brk s), map_it = Some this\<rparr>, True), s')"
      "maps s' this = Some c'" "lhm_struct T s' c' (as @ [brk s])"
      "entry s' = (entry s)(brk s \<mapsto> (k, v))"
      "c' = c\<lparr>element_count := Suc (length as)\<rparr>"
      "changes_only this s c as s' c' (as @ [brk s])"
      "read_bucket s' (buckets c') (hash_func T k mod bucket_count c') = Some (Some (brk s))"
      by blast
    have "lhm_inv T s' c' (as @ [brk s])"
      using r(3,5) False by (simp add: lhm_inv_def)
    then show ?thesis
      using that[OF r(1,2) _ r(4) _ _ _ _ r(6,7)] r(5) False by simp
  next
    case True
    from rehash_spec[OF S M, of "bucket_count c * 2"] bc obtain s1 c1 where re:
      "rehash T this (bucket_count c * 2) s = Some s1" "maps s1 this = Some c1"
      "lhm_struct T s1 c1 as" "c1 = c\<lparr>buckets := brk s, bucket_count := bucket_count c * 2\<rparr>"
      "entry s1 = entry s" "changes_only this s c as s1 c1 as" "brk s1 = Suc (brk s)"
      by auto
    have abs1: "lookup T s1 as k = None" using abs lookup_cong[OF re(5)] by simp
    have nr1: "\<not> 3 * bucket_count c1 < 4 * (element_count c1 + 1)"
      using load_arith[OF ld bc] by (simp add: re(4) ec)
    from insert_new_spec[OF H re(3,2) abs1 nr1, of v] obtain s' c' where r:
      "insert_lhm T this (k, v) s1 = Some ((\<lparr>node_it = Some (brk s1), map_it = Some this\<rparr>, True), s')"
      "maps s' this = Some c'" "lhm_struct T s' c' (as @ [brk s1])"
      "entry s' = (entry s1)(brk s1 \<mapsto> (k, v))"
      "c' = c1\<lparr>element_count := Suc (length as)\<rparr>"
      "changes_only this s1 c1 as s' c' (as @ [brk s1])"
      "read_bucket s' (buckets c') (hash_func T k mod bucket_count c') = Some (Some (brk s1))"
      by blast
    have eq: "insert_lhm T this (k, v) s = insert_lhm T this (k, v) s1"
      unfolding insert_lhm_def
      using lookup_spec[OF H S M, of k] lookup_spec[OF H re(3,2), of k] abs abs1 M re(1,2) True nr1
      by (simp add: ec)
    have inv: "lhm_inv T s' c' (as @ [brk s1])"
      using r(3,5) nr1 by (simp add: lhm_inv_def re(4) ec)
    have ch: "changes_only this s c as s' c' (as @ [brk s1])"
      using changes_only_trans[OF re(6) r(6)] .
    show ?thesis
      using that[OF r(1)[folded eq] r(2) inv _ _ _ _ _ ch r(7)] r(4,5) re(4,5,7) True by simp
  qed
qed

lemma allocated_iff:
  "nodes s a \<noteq> None \<longleftrightarrow> next_of s a \<noteq> None"
  "nodes s a \<noteq> None \<longleftrightarrow> prev_of s a \<noteq> None"
  "nodes s a \<noteq> None \<longleftrightarrow> nib_of s a \<noteq> None"
  by (auto simp: next_of_def prev_of_def nib_of_def)

lemma set_next_views:
  assumes "nodes s a \<noteq> None"
  obtains s' where "set_next (Some a) v s = Some s'"
    "next_of s' = (next_of s)(a \<mapsto> v)" "prev_of s' = prev_of s" "nib_of s' = nib_of s"
    "entry s' = entry s" "arrays s' = arrays s" "maps s' = maps s" "brk s' = brk s"
    "\<And>x. x \<noteq> a \<Longrightarrow> nodes s' x = nodes s x"
    "\<And>x. nodes s' x = None \<longleftrightarrow> nodes s x = None"
proof -
  from assms obtain n where n: "nodes s a = Some n" by auto
  show ?thesis
    by (rule that[of "store a (n\<lparr>next := v\<rparr>) s"])
      (use n in \<open>auto simp: set_next_def store_def next_of_def prev_of_def nib_of_def entry_def fun_eq_iff\<close>)
qed

lemma set_prev_views:
  assumes "nodes s a \<noteq> None"
  obtains s' where "set_prev (Some a) v s = Some s'"
    "next_of s' = next_of s" "prev_of s' = (prev_of s)(a \<mapsto> v)" "nib_of s' = nib_of s"
    "entry s' = entry s" "arrays s' = arrays s" "maps s' = maps s" "brk s' = brk s"
    "\<And>x. x \<noteq> a \<Longrightarrow> nodes s' x = nodes s x"
    "\<And>x. nodes s' x = None \<longleftrightarrow> nodes s x = None"
proof -
  from assms obtain n where n: "nodes s a = Some n" by auto
  show ?thesis
    by (rule that[of "store a (n\<lparr>prev := v\<rparr>) s"])
      (use n in \<open>auto simp: set_prev_def store_def next_of_def prev_of_def nib_of_def entry_def fun_eq_iff\<close>)
qed

lemma set_next_in_bucket_views:
  assumes "nodes s a \<noteq> None"
  obtains s' where "set_next_in_bucket (Some a) v s = Some s'"
    "next_of s' = next_of s" "prev_of s' = prev_of s" "nib_of s' = (nib_of s)(a \<mapsto> v)"
    "entry s' = entry s" "arrays s' = arrays s" "maps s' = maps s" "brk s' = brk s"
    "\<And>x. x \<noteq> a \<Longrightarrow> nodes s' x = nodes s x"
    "\<And>x. nodes s' x = None \<longleftrightarrow> nodes s x = None"
proof -
  from assms obtain n where n: "nodes s a = Some n" by auto
  show ?thesis
    by (rule that[of "store a (n\<lparr>next_in_bucket := v\<rparr>) s"])
      (use n in \<open>auto simp: set_next_in_bucket_def store_def next_of_def prev_of_def nib_of_def entry_def fun_eq_iff\<close>)
qed

lemma delete_Node_views:
  assumes "nodes s a \<noteq> None"
  obtains s' where "delete_Node a s = Some s'"
    "next_of s' = (next_of s)(a := None)" "prev_of s' = (prev_of s)(a := None)"
    "nib_of s' = (nib_of s)(a := None)" "entry s' = (entry s)(a := None)"
    "arrays s' = arrays s" "maps s' = maps s" "brk s' = brk s"
    "\<And>x. x \<noteq> a \<Longrightarrow> nodes s' x = nodes s x"
proof -
  from assms obtain n where n: "nodes s a = Some n" by auto
  show ?thesis
    by (rule that[of "s\<lparr>nodes := (nodes s)(a := None)\<rparr>"])
      (use n in \<open>auto simp: delete_Node_def next_of_def prev_of_def nib_of_def entry_def fun_eq_iff\<close>)
qed

lemma remove_from_order_list_views:
  assumes "next_of s a = Some (Some r)" "prev_of s a = Some (Some l)"
    and "nodes s l \<noteq> None" "nodes s r \<noteq> None" "l \<noteq> a" "r \<noteq> a"
  obtains s' where "remove_from_order_list (Some a) s = Some s'"
    "next_of s' = (next_of s)(l \<mapsto> Some r)" "prev_of s' = (prev_of s)(r \<mapsto> Some l)"
    "nib_of s' = nib_of s" "entry s' = entry s" "arrays s' = arrays s" "maps s' = maps s"
    "brk s' = brk s" "\<And>x. x \<noteq> l \<Longrightarrow> x \<noteq> r \<Longrightarrow> nodes s' x = nodes s x"
proof -
  from assms(1,2) obtain n where n: "nodes s a = Some n" "next n = Some r" "prev n = Some l"
    by (auto simp: view_Some)
  from set_next_views[OF assms(3), of "Some r"] obtain s1 where s1:
    "set_next (Some l) (Some r) s = Some s1"
    "next_of s1 = (next_of s)(l \<mapsto> Some r)" "prev_of s1 = prev_of s" "nib_of s1 = nib_of s"
    "entry s1 = entry s" "arrays s1 = arrays s" "maps s1 = maps s" "brk s1 = brk s"
    "\<And>x. x \<noteq> l \<Longrightarrow> nodes s1 x = nodes s x"
    "\<And>x. nodes s1 x = None \<longleftrightarrow> nodes s x = None"
    by blast
  have n1: "nodes s1 a = Some n" using s1(9)[of a] assms(5) n by simp
  have r1: "nodes s1 r \<noteq> None"
    using assms(4) s1(10) by simp
  from set_prev_views[OF r1, of "Some l"] obtain s2 where s2:
    "set_prev (Some r) (Some l) s1 = Some s2"
    "next_of s2 = next_of s1" "prev_of s2 = (prev_of s1)(r \<mapsto> Some l)" "nib_of s2 = nib_of s1"
    "entry s2 = entry s1" "arrays s2 = arrays s1" "maps s2 = maps s1" "brk s2 = brk s1"
    "\<And>x. x \<noteq> r \<Longrightarrow> nodes s2 x = nodes s1 x"
    "\<And>x. nodes s2 x = None \<longleftrightarrow> nodes s1 x = None"
    by blast
  have "remove_from_order_list (Some a) s = Some s2"
    using n n1 s1(1) s2(1) by (simp add: remove_from_order_list_def load_def)
  then show ?thesis
    using that[of s2] s1 s2 by simp
qed

lemma chain_split:
  assumes "chain nb p (cx @ a # cy)"
  shows "\<exists>q. nb a = Some q \<and> chain nb q cy" "cx \<noteq> [] \<Longrightarrow> nb (last cx) = Some (Some a)"
    "cx = [] \<Longrightarrow> p = Some a"
  using assms
  by (induction cx arbitrary: p; auto simp: chain_Cons)+

lemma chain_unlink:
  assumes "chain nb p (cx @ a # cy)" "distinct (cx @ a # cy)" "cx \<noteq> []" "nb a = Some q"
  shows "chain (nb(last cx \<mapsto> q)) p (cx @ cy)"
  using assms
proof (induction cx arbitrary: p)
  case Nil
  then show ?case by simp
next
  case (Cons x cx)
  show "chain (nb(last (x # cx) \<mapsto> q)) p ((x # cx) @ cy)"
  proof (cases "cx = []")
    case True
    from Cons.prems(1) True have p: "p = Some x" and ch: "chain nb q cy"
      using Cons.prems(4) by (auto simp: chain_Cons)
    have "x \<notin> set cy" using Cons.prems(2) by simp
    then show ?thesis using ch p True by (simp add: chain_upd chain_Cons)
  next
    case False
    from Cons.prems(1) obtain p' where p': "p = Some x" "nb x = Some p'" "chain nb p' (cx @ a # cy)"
      by (auto simp: chain_Cons)
    have dcx: "distinct (cx @ a # cy)" using Cons.prems(2) by simp
    have ih: "chain (nb(last cx \<mapsto> q)) p' (cx @ cy)"
      by (rule Cons.IH[OF p'(3) dcx False Cons.prems(4)])
    have xl: "x \<noteq> last cx" using Cons.prems(2) False by auto
    show ?thesis using ih xl p' False by (simp add: chain_Cons)
  qed
qed

lemma erase_loop_spec:
  assumes "chain (nib_of s) p (cx @ a # cy)" "a \<notin> set cx" "read_slot s b sl = Some p"
  shows "erase_loop s b sl a = Some (if cx = [] then sl else Chain_slot (last cx))"
  using assms
proof (induction cx arbitrary: p sl)
  case Nil
  then show ?case by (subst erase_loop.simps) (simp add: chain_Cons)
next
  case (Cons x cx)
  from Cons.prems(1) obtain p' where p': "p = Some x" "nib_of s x = Some p'"
    "chain (nib_of s) p' (cx @ a # cy)"
    by (auto simp: chain_Cons)
  have rs: "read_slot s b (Chain_slot x) = Some p'"
    using p'(2) by (auto simp: read_slot_def view_Some)
  have "erase_loop s b (Chain_slot x) a = Some (if cx = [] then Chain_slot x else Chain_slot (last cx))"
    using Cons.IH[OF p'(3) _ rs] Cons.prems(2) by simp
  then show ?case
    using Cons.prems(2,3) p'(1) by (subst erase_loop.simps) auto
qed

lemma dll_remove:
  assumes d: "dll nx pv p (xs @ a # ys) q" and dist: "distinct (p # (xs @ a # ys) @ [q])"
    and l: "l = last (p # xs)" and r: "r = hd (ys @ [q])"
  shows "dll (nx(l \<mapsto> Some r)) (pv(r \<mapsto> Some l)) p (xs @ ys) q"
    and "nx a = Some (Some r)" "pv a = Some (Some l)" "nx l = Some (Some a)" "pv r = Some (Some a)"
proof -
  let ?nx = "nx(l \<mapsto> Some r)" and ?pv = "pv(r \<mapsto> Some l)"
  obtain L where L: "p # xs = L @ [l]"
    using append_butlast_last_id[of "p # xs"] l by (metis list.distinct(1))
  obtain R where R: "ys @ [q] = r # R"
    using r by (cases "ys @ [q]") auto
  have path: "p # (xs @ a # ys) @ [q] = L @ l # a # r # R"
    using L R by (metis append.assoc append_Cons append_Nil)
  have s: "successively (Link nx pv) (L @ l # a # r # R)"
    using d unfolding dll_def using path by simp
  have di: "distinct (L @ l # a # r # R)" using dist path by metis
  have la: "Link nx pv l a" and ar: "Link nx pv a r"
    and sL: "successively (Link nx pv) (L @ [l])" and sR: "successively (Link nx pv) (r # R)"
    using s by (auto simp: successively_append_iff successively_Cons)
  show "nx a = Some (Some r)" "pv a = Some (Some l)" "nx l = Some (Some a)" "pv r = Some (Some a)"
    using la ar by (auto simp: Link_def)
  have sL': "successively (Link ?nx ?pv) (L @ [l])"
  proof (rule successively_mono[OF sL])
    fix x y assume xy: "x \<in> set (L @ [l])" "y \<in> set (L @ [l])" "Link nx pv x y"
    have "x \<noteq> l"
    proof
      assume "x = l"
      with xy(3) la have "y = a" by (simp add: Link_def)
      with xy(2) di show False by auto
    qed
    moreover have "y \<noteq> r" using xy(2) di by auto
    ultimately show "Link ?nx ?pv x y" using xy(3) by (simp add: Link_def)
  qed
  have sR': "successively (Link ?nx ?pv) (r # R)"
  proof (rule successively_mono[OF sR])
    fix x y assume xy: "x \<in> set (r # R)" "y \<in> set (r # R)" "Link nx pv x y"
    have "y \<noteq> r"
    proof
      assume "y = r"
      with xy(3) ar have "x = a" by (simp add: Link_def)
      with xy(1) di show False by auto
    qed
    moreover have "x \<noteq> l" using xy(1) di by auto
    ultimately show "Link ?nx ?pv x y" using xy(3) by (simp add: Link_def)
  qed
  have "Link ?nx ?pv l r" using di by (auto simp: Link_def)
  then have "successively (Link ?nx ?pv) ((L @ [l]) @ r # R)"
    using sL' sR' by (simp only: successively_append_iff) simp
  moreover have "p # (xs @ ys) @ [q] = (L @ [l]) @ r # R"
    using L R by (metis append.assoc append_Cons)
  ultimately show "dll ?nx ?pv p (xs @ ys) q"
    unfolding dll_def by simp
qed

lemma table_ok_cong:
  assumes "table_ok T nb e bs m as" "\<forall>x\<in>set as. nb' x = nb x" "\<forall>x\<in>set as. e' x = e x"
  shows "table_ok T nb' e' bs m as"
  unfolding table_ok_def
proof (intro conjI allI impI)
  show "length bs = m" using assms(1) by (simp add: table_ok_def)
  fix j assume "j < m"
  with assms(1) obtain ch where ch: "chain nb (bs ! j) ch" "distinct ch"
    "set ch = {a \<in> set as. bucket_of T e m a = Some j}"
    unfolding table_ok_def by blast
  have "chain nb' (bs ! j) ch = chain nb (bs ! j) ch"
    by (rule chain_cong) (use ch(3) assms(2) in auto)
  moreover have "{a \<in> set as. bucket_of T e' m a = Some j} = {a \<in> set as. bucket_of T e m a = Some j}"
    using assms(3) by (auto simp: bucket_of_def)
  ultimately show "\<exists>ch. chain nb' (bs ! j) ch \<and> distinct ch \<and>
      set ch = {a \<in> set as. bucket_of T e' m a = Some j}"
    using ch by auto
qed

lemma table_chain:
  assumes "table_ok T nb e bs m as" "a \<in> set as" "bucket_of T e m a = Some i" "i < m"
  obtains cx cy where "chain nb (bs ! i) (cx @ a # cy)" "distinct (cx @ a # cy)"
    "set (cx @ a # cy) = {x \<in> set as. bucket_of T e m x = Some i}"
proof -
  from assms(1,4) obtain ch where ch: "chain nb (bs ! i) ch" "distinct ch"
    "set ch = {x \<in> set as. bucket_of T e m x = Some i}"
    unfolding table_ok_def by blast
  then have "a \<in> set ch" using assms(2,3) by simp
  then obtain cx cy where "ch = cx @ a # cy" by (meson split_list)
  with ch that show ?thesis by blast
qed

lemma table_unlink:
  assumes t: "table_ok T nb e bs m (xs @ a # ys)" and dist: "distinct (xs @ a # ys)"
    and b: "bucket_of T e m a = Some i" "i < m"
    and ch: "chain nb (bs ! i) (cx @ a # cy)" and q: "nb a = Some q"
  shows "cx = [] \<Longrightarrow> table_ok T nb e (bs[i := q]) m (xs @ ys)"
    and "cx \<noteq> [] \<Longrightarrow> table_ok T (nb(last cx \<mapsto> q)) e bs m (xs @ ys)"
proof -
  let ?as = "xs @ a # ys"
  have len: "length bs = m" using t by (simp add: table_ok_def)
  from t b(2) obtain ch' where ch': "chain nb (bs ! i) ch'" "distinct ch'"
    "set ch' = {x \<in> set ?as. bucket_of T e m x = Some i}"
    unfolding table_ok_def by blast
  have eq: "ch' = cx @ a # cy" using chain_unique[OF ch'(1) ch] .
  have dch: "distinct (cx @ a # cy)" and sch: "set (cx @ a # cy) = {x \<in> set ?as. bucket_of T e m x = Some i}"
    using ch' eq by simp_all
  have seti: "set (cx @ cy) = {x \<in> set (xs @ ys). bucket_of T e m x = Some i}"
  proof -
    have "set (cx @ cy) = set (cx @ a # cy) - {a}" using dch by auto
    also have "\<dots> = {x \<in> set ?as. bucket_of T e m x = Some i} - {a}" using sch by simp
    also have "\<dots> = {x \<in> set (xs @ ys). bucket_of T e m x = Some i}" using dist by auto
    finally show ?thesis .
  qed
  from chain_split(1)[OF ch] q have cyq: "chain nb q cy" by simp
  have other: "\<exists>c. chain nb (bs ! j) c \<and> distinct c \<and> set c = {x \<in> set (xs @ ys). bucket_of T e m x = Some j}
      \<and> set c \<inter> set (cx @ a # cy) = {}"
    if j: "j < m" "j \<noteq> i" for j
  proof -
    from t j(1) obtain c where c: "chain nb (bs ! j) c" "distinct c"
      "set c = {x \<in> set ?as. bucket_of T e m x = Some j}"
      unfolding table_ok_def by blast
    have "a \<notin> set c" using c(3) b(1) j(2) by auto
    then have "set c = {x \<in> set (xs @ ys). bucket_of T e m x = Some j}" using c(3) by auto
    moreover have "set c \<inter> set (cx @ a # cy) = {}" using c(3) sch j(2) by auto
    ultimately show ?thesis using c by blast
  qed
  {
    assume cx: "cx = []"
    show "table_ok T nb e (bs[i := q]) m (xs @ ys)"
      unfolding table_ok_def
    proof (intro conjI allI impI)
      show "length (bs[i := q]) = m" using len by simp
      fix j assume j: "j < m"
      show "\<exists>ch. chain nb (bs[i := q] ! j) ch \<and> distinct ch \<and>
           set ch = {a \<in> set (xs @ ys). bucket_of T e m a = Some j}"
      proof (cases "j = i")
        case True
        then show ?thesis using cyq dch seti cx len j by (intro exI[of _ cy]) simp
      next
        case False
        with other[OF j] show ?thesis by auto
      qed
    qed
  }
  {
    assume cx: "cx \<noteq> []"
    have lin: "last cx \<in> set cx" using cx by simp
    show "table_ok T (nb(last cx \<mapsto> q)) e bs m (xs @ ys)"
      unfolding table_ok_def
    proof (intro conjI allI impI)
      show "length bs = m" by fact
      fix j assume j: "j < m"
      show "\<exists>ch. chain (nb(last cx \<mapsto> q)) (bs ! j) ch \<and> distinct ch \<and>
           set ch = {a \<in> set (xs @ ys). bucket_of T e m a = Some j}"
      proof (cases "j = i")
        case True
        have "chain (nb(last cx \<mapsto> q)) (bs ! i) (cx @ cy)"
          by (rule chain_unlink[OF ch dch cx q])
        then show ?thesis using dch seti True by (intro exI[of _ "cx @ cy"]) simp
      next
        case False
        from other[OF j False] obtain c where c: "chain nb (bs ! j) c" "distinct c"
          "set c = {x \<in> set (xs @ ys). bucket_of T e m x = Some j}"
          "set c \<inter> set (cx @ a # cy) = {}" by blast
        have "last cx \<notin> set c" using c(4) lin by auto
        then have "chain (nb(last cx \<mapsto> q)) (bs ! j) c" using c(1) by (simp add: chain_upd)
        then show ?thesis using c by blast
      qed
    qed
  }
qed

lemma keys_distinct_subset:
  assumes "keys_distinct T e as" "set as' \<subseteq> set as" "\<forall>x\<in>set as'. e' x = e x"
  shows "keys_distinct T e' as'"
  using assms unfolding keys_distinct_def by (metis subsetD)

lemma view_set_map:
  "next_of (set_map t c s) = next_of s" "prev_of (set_map t c s) = prev_of s"
  "nib_of (set_map t c s) = nib_of s" "entry (set_map t c s) = entry s"
  "arrays (set_map t c s) = arrays s" "brk (set_map t c s) = brk s"
  "nodes (set_map t c s) = nodes s" "maps (set_map t c s) = (maps s)(t \<mapsto> c)"
  by (auto simp: set_map_def next_of_def prev_of_def nib_of_def entry_def fun_eq_iff)

lemma erase_spec:
  assumes H: "hash_ok T" and S: "lhm_struct T s c (xs @ a # ys)" and M: "maps s this = Some c"
  obtains s' c' where
    "erase T this \<lparr>node_it = Some a, map_it = Some this\<rparr> s = Some (Inr s')"
    "maps s' this = Some c'" "lhm_struct T s' c' (xs @ ys)"
    "entry s' = (entry s)(a := None)"
    "c' = c\<lparr>element_count := length (xs @ ys)\<rparr>"
    "changes_only this s c (xs @ a # ys) s' c' (xs @ ys)"
proof -
  let ?as = "xs @ a # ys"
  note d = structD[OF S]
  define l where "l = last (head c # xs)"
  define r where "r = hd (ys @ [tail c])"
  define b where "b = buckets c"
  define m where "m = bucket_count c"
  have dist: "distinct (head c # ?as @ [tail c])" using d(1) .
  note rm = dll_remove[OF d(2) dist l_def r_def]
  have lin: "l \<in> set (head c # xs)" unfolding l_def by (rule last_in_set) simp
  have rin: "r \<in> set (ys @ [tail c])" unfolding r_def by (rule hd_in_set) simp
  have ne: "a \<noteq> head c" "a \<noteq> tail c" "l \<noteq> a" "r \<noteq> a"
    using dist lin rin by auto
  from d(3) obtain da where da: "entry s a = Some da" by auto
  then obtain na where na: "nodes s a = Some na" "data na = Some da" by (auto simp: view_Some)
  define i where "i = hash_func T (fst da) mod m"
  have m0: "0 < m" using d(6) by (simp add: m_def)
  have ilt: "i < m" using m0 by (simp add: i_def)
  have gi: "get_bucket_index T s this (fst da) = Some i"
    using M m0 by (simp add: get_bucket_index_def i_def m_def)
  from d(7) obtain bs where bs: "arrays s b = Some bs"
    and tab: "table_ok T (nib_of s) (entry s) bs m ?as"
    by (auto simp: b_def m_def)
  have len: "length bs = m" using tab by (simp add: table_ok_def)
  have bo: "bucket_of T (entry s) m a = Some i" using da by (simp add: bucket_of_def i_def)
  from table_chain[OF tab _ bo ilt] obtain cx cy where ch: "chain (nib_of s) (bs ! i) (cx @ a # cy)"
    "distinct (cx @ a # cy)" "set (cx @ a # cy) = {x \<in> set ?as. bucket_of T (entry s) m x = Some i}"
    by auto
  define q where "q = next_in_bucket na"
  have q: "nib_of s a = Some q" using na by (simp add: nib_of_def q_def)
  define sl where "sl = (if cx = [] then Bucket_slot i else Chain_slot (last cx))"
  have rb: "read_slot s b (Bucket_slot i) = Some (bs ! i)"
    using bs ilt len by (simp add: read_slot_def read_bucket_def)
  have el: "erase_loop s b (Bucket_slot i) a = Some sl"
    unfolding sl_def by (rule erase_loop_spec[OF ch(1) _ rb]) (use ch(2) in simp)
  have rs: "read_slot s b sl = Some (Some a)"
  proof (cases "cx = []")
    case True
    then show ?thesis using chain_split(3)[OF ch(1)] rb by (simp add: sl_def)
  next
    case False
    then show ?thesis using chain_split(2)[OF ch(1)]
      by (auto simp: sl_def read_slot_def view_Some)
  qed
  have cxs: "set cx \<subseteq> set ?as" using ch(3) by auto
  have "\<exists>s1 bs1. write_slot b sl q s = Some s1 \<and> next_of s1 = next_of s \<and> prev_of s1 = prev_of s \<and>
      entry s1 = entry s \<and> maps s1 = maps s \<and> brk s1 = brk s \<and>
      arrays s1 = (arrays s)(b \<mapsto> bs1) \<and>
      (\<forall>x. x \<notin> set cx \<longrightarrow> nodes s1 x = nodes s x) \<and>
      (\<forall>x. nodes s1 x = None \<longleftrightarrow> nodes s x = None) \<and>
      table_ok T (nib_of s1) (entry s) bs1 m (xs @ ys)"
  proof (cases "cx = []")
    case True
    let ?s1 = "s\<lparr>arrays := (arrays s)(b \<mapsto> bs[i := q])\<rparr>"
    have "write_slot b sl q s = Some ?s1"
      using bs ilt len True by (simp add: write_slot_def sl_def write_bucket_def)
    moreover have "next_of ?s1 = next_of s" "prev_of ?s1 = prev_of s" "entry ?s1 = entry s"
      "nib_of ?s1 = nib_of s"
      by (auto simp: next_of_def prev_of_def nib_of_def entry_def fun_eq_iff)
    moreover have "table_ok T (nib_of s) (entry s) (bs[i := q]) m (xs @ ys)"
      using table_unlink(1)[OF tab _ bo ilt ch(1) q True] d(1) by simp
    ultimately show ?thesis by (intro exI[of _ ?s1] exI[of _ "bs[i := q]"]) simp
  next
    case False
    then have lcx: "last cx \<in> set cx" by simp
    have "nodes s (last cx) \<noteq> None"
      using chain_split(2)[OF ch(1) False] by (auto simp: view_Some)
    from set_next_in_bucket_views[OF this, of q] obtain s1 where s1:
      "set_next_in_bucket (Some (last cx)) q s = Some s1"
      "next_of s1 = next_of s" "prev_of s1 = prev_of s" "nib_of s1 = (nib_of s)(last cx \<mapsto> q)"
      "entry s1 = entry s" "arrays s1 = arrays s" "maps s1 = maps s" "brk s1 = brk s"
      "\<And>x. x \<noteq> last cx \<Longrightarrow> nodes s1 x = nodes s x"
      "\<And>x. nodes s1 x = None \<longleftrightarrow> nodes s x = None"
      by blast
    have "write_slot b sl q s = Some s1" using s1(1) False by (simp add: write_slot_def sl_def)
    moreover have "table_ok T (nib_of s1) (entry s) bs m (xs @ ys)"
      unfolding s1(4) using table_unlink(2)[OF tab _ bo ilt ch(1) q False] d(1) by simp
    moreover have "arrays s1 = (arrays s)(b \<mapsto> bs)" using s1(6) bs by (auto simp: fun_eq_iff)
    moreover have "\<forall>x. x \<notin> set cx \<longrightarrow> nodes s1 x = nodes s x" using s1(9) lcx by metis
    ultimately show ?thesis using s1(2,3,5,7,8,10) by (intro exI[of _ s1] exI[of _ bs]) simp
  qed
  then obtain s1 bs1 where s1: "write_slot b sl q s = Some s1" "next_of s1 = next_of s"
    "prev_of s1 = prev_of s" "entry s1 = entry s" "maps s1 = maps s" "brk s1 = brk s"
    "arrays s1 = (arrays s)(b \<mapsto> bs1)"
    "\<forall>x. x \<notin> set cx \<longrightarrow> nodes s1 x = nodes s x"
    "\<forall>x. nodes s1 x = None \<longleftrightarrow> nodes s x = None"
    "table_ok T (nib_of s1) (entry s) bs1 m (xs @ ys)"
    by blast
  have al: "nodes s l \<noteq> None" "nodes s r \<noteq> None"
    using rm(4,5) by (auto simp: view_Some)
  have "nodes s1 l \<noteq> None" "nodes s1 r \<noteq> None" using al s1(9) by simp_all
  from remove_from_order_list_views[OF rm(2,3)[folded s1(2,3)] this ne(3,4)] obtain s2 where s2:
    "remove_from_order_list (Some a) s1 = Some s2"
    "next_of s2 = (next_of s1)(l \<mapsto> Some r)" "prev_of s2 = (prev_of s1)(r \<mapsto> Some l)"
    "nib_of s2 = nib_of s1" "entry s2 = entry s1" "arrays s2 = arrays s1" "maps s2 = maps s1"
    "brk s2 = brk s1" "\<And>x. x \<noteq> l \<Longrightarrow> x \<noteq> r \<Longrightarrow> nodes s2 x = nodes s1 x"
    by blast
  have "nodes s2 a \<noteq> None"
    using s2(9)[of a] ne(3,4) s1(9) na(1) by simp
  from delete_Node_views[OF this] obtain s3 where s3: "delete_Node a s2 = Some s3"
    "next_of s3 = (next_of s2)(a := None)" "prev_of s3 = (prev_of s2)(a := None)"
    "nib_of s3 = (nib_of s2)(a := None)" "entry s3 = (entry s2)(a := None)"
    "arrays s3 = arrays s2" "maps s3 = maps s2" "brk s3 = brk s2"
    "\<And>x. x \<noteq> a \<Longrightarrow> nodes s3 x = nodes s2 x"
    by blast
  define c' where "c' = c\<lparr>element_count := length (xs @ ys)\<rparr>"
  define s' where "s' = set_map this c' s3"
  have ec: "element_count c = Suc (length (xs @ ys))" using d(5) by simp
  have er: "erase T this \<lparr>node_it = Some a, map_it = Some this\<rparr> s = Some (Inr s')"
    unfolding erase_def
    using M ne(1,2) na gi el rs s1(1) s2(1) s3(1) s1(5) s2(7) s3(7) ec
    by (simp add: b_def[symmetric] q_def[symmetric] s'_def c'_def)
  have v': "next_of s' = (next_of s)(l \<mapsto> Some r, a := None)"
    "prev_of s' = (prev_of s)(r \<mapsto> Some l, a := None)"
    "nib_of s' = (nib_of s1)(a := None)" "entry s' = (entry s)(a := None)"
    "arrays s' = (arrays s)(b \<mapsto> bs1)" "brk s' = brk s" "maps s' = (maps s)(this \<mapsto> c')"
    "nodes s' = nodes s3"
    using s1(2-7) s2(2-8) s3(2-8)
    by (simp_all add: s'_def view_set_map)
  have sub: "set (head c # (xs @ ys) @ [tail c]) \<subseteq> set (head c # ?as @ [tail c])" by auto
  have anew: "a \<notin> set (head c # (xs @ ys) @ [tail c])" using dist by auto
  have st: "lhm_struct T s' c' (xs @ ys)"
    unfolding lhm_struct_def
  proof (intro conjI)
    show "distinct (head c' # (xs @ ys) @ [tail c'])" using dist by (simp add: c'_def)
    have "dll ((next_of s)(l \<mapsto> Some r, a := None)) ((prev_of s)(r \<mapsto> Some l, a := None))
        (head c) (xs @ ys) (tail c) =
      dll ((next_of s)(l \<mapsto> Some r)) ((prev_of s)(r \<mapsto> Some l)) (head c) (xs @ ys) (tail c)"
      by (rule dll_cong) (use anew in auto)
    then show "dll (next_of s') (prev_of s') (head c') (xs @ ys) (tail c')"
      using rm(1) by (simp add: v' c'_def)
    show "\<forall>x\<in>set (xs @ ys). entry s' x \<noteq> None" using d(3) dist by (auto simp: v')
    show "keys_distinct T (entry s') (xs @ ys)"
      by (rule keys_distinct_subset[OF d(4)]) (use dist in \<open>auto simp: v'\<close>)
    show "element_count c' = length (xs @ ys)" by (simp add: c'_def)
    show "0 < bucket_count c'" using d(6) by (simp add: c'_def)
    have "table_ok T (nib_of s') (entry s') bs1 m (xs @ ys)"
      by (rule table_ok_cong[OF s1(10)]) (use dist in \<open>auto simp: v'\<close>)
    then show "\<exists>bs. arrays s' (buckets c') = Some bs \<and>
         table_ok T (nib_of s') (entry s') bs (bucket_count c') (xs @ ys)"
      by (simp add: v' c'_def b_def m_def)
    show "\<forall>x\<in>set (head c' # (xs @ ys) @ [tail c']). x < brk s'"
      using d(8) by (auto simp: v' c'_def)
    show "buckets c' < brk s'" using d(9) by (simp add: v' c'_def)
  qed
  have ch: "changes_only this s c ?as s' c' (xs @ ys)"
    unfolding changes_only_def owns_def
  proof (intro conjI allI impI ballI)
    show "brk s \<le> brk s'" by (simp add: v')
    show "nodes s' x = nodes s x" if "x < brk s" "x \<notin> set (head c # ?as @ [tail c])" for x
    proof -
      have "x \<noteq> a" "x \<noteq> l" "x \<noteq> r" "x \<notin> set cx" using that(2) lin rin cxs by auto
      then show ?thesis using s3(9)[of x] s2(9)[of x] s1(8) by (simp add: v')
    qed
    show "arrays s' x = arrays s x" if "x \<noteq> buckets c" for x
      using that by (simp add: v' b_def)
    show "maps s' x = maps s x" if "x \<noteq> this" for x using that by (simp add: v')
    show "x \<in> set (head c # ?as @ [tail c]) \<or> brk s \<le> x"
      if "x \<in> set (head c' # (xs @ ys) @ [tail c'])" for x
      using that by (auto simp: c'_def)
    show "buckets c' = buckets c \<or> brk s \<le> buckets c'" by (simp add: c'_def)
  qed
  show ?thesis
    using that[OF er _ st v'(4) c'_def ch] by (simp add: v')
qed

lemma view_eqI:
  assumes "nodes s' a = nodes s a"
  shows "next_of s' a = next_of s a" "prev_of s' a = prev_of s a" "nib_of s' a = nib_of s a"
    "entry s' a = entry s a"
  using assms by (simp_all add: next_of_def prev_of_def nib_of_def entry_def)

lemma struct_frame:
  assumes S: "lhm_struct T s c as"
    and n: "\<forall>a\<in>owns c as. nodes s' a = nodes s a"
    and ar: "arrays s' (buckets c) = arrays s (buckets c)" and b: "brk s \<le> brk s'"
  shows "lhm_struct T s' c as"
proof -
  note d = structD[OF S]
  have v: "\<And>a. a \<in> set (head c # as @ [tail c]) \<Longrightarrow>
      next_of s' a = next_of s a \<and> prev_of s' a = prev_of s a \<and> nib_of s' a = nib_of s a \<and>
      entry s' a = entry s a"
    using n view_eqI unfolding owns_def by metis
  show ?thesis
    unfolding lhm_struct_def
  proof (intro conjI)
    show "distinct (head c # as @ [tail c])" by fact
    have "dll (next_of s') (prev_of s') (head c) as (tail c) =
        dll (next_of s) (prev_of s) (head c) as (tail c)"
      by (rule dll_cong) (use v in blast)
    then show "dll (next_of s') (prev_of s') (head c) as (tail c)" using d(2) by simp
    show "\<forall>a\<in>set as. entry s' a \<noteq> None" using d(3) v by auto
    show "keys_distinct T (entry s') as"
      by (rule keys_distinct_subset[OF d(4)]) (use v in auto)
    show "element_count c = length as" by fact
    show "0 < bucket_count c" by fact
    from d(7) obtain bs where bs: "arrays s (buckets c) = Some bs"
      "table_ok T (nib_of s) (entry s) bs (bucket_count c) as" by blast
    have "table_ok T (nib_of s') (entry s') bs (bucket_count c) as"
      by (rule table_ok_cong[OF bs(2)]) (use v in auto)
    then show "\<exists>bs. arrays s' (buckets c) = Some bs \<and>
         table_ok T (nib_of s') (entry s') bs (bucket_count c) as"
      using bs(1) ar by simp
    show "\<forall>a\<in>set (head c # as @ [tail c]). a < brk s'" using d(8) b by fastforce
    show "buckets c < brk s'" using d(9) b by simp
  qed
qed

lemma contents_frame:
  assumes "\<forall>a\<in>set as. nodes s' a = nodes s a"
  shows "contents s' as = contents s as"
  using assms by (simp add: contents_def entry_def)

lemma frame_other:
  assumes ch: "changes_only this s c as s' c' as'"
    and I: "lhm_inv T s co aso" and sep: "separate c as co aso"
  shows "lhm_inv T s' co aso" "contents s' aso = contents s aso" "separate c' as' co aso"
    "\<forall>a\<in>owns co aso. nodes s' a = nodes s a"
proof -
  note c = ch[unfolded changes_only_def]
  have S: "lhm_struct T s co aso" using I by (simp add: lhm_inv_def)
  note d = structD[OF S]
  have below: "\<And>a. a \<in> owns co aso \<Longrightarrow> a < brk s" using d(8) by (auto simp: owns_def)
  show n: "\<forall>a\<in>owns co aso. nodes s' a = nodes s a"
    using c below sep unfolding separate_def by blast
  have ar: "arrays s' (buckets co) = arrays s (buckets co)"
    using c d(9) sep unfolding separate_def by metis
  have "lhm_struct T s' co aso"
    by (rule struct_frame[OF S n ar]) (use c in blast)
  then show "lhm_inv T s' co aso" using I by (simp add: lhm_inv_def)
  show "contents s' aso = contents s aso"
    by (rule contents_frame) (use n in \<open>auto simp: owns_def\<close>)
  show "separate c' as' co aso"
    unfolding separate_def
  proof
    show "owns c' as' \<inter> owns co aso = {}"
    proof (rule ccontr)
      assume "owns c' as' \<inter> owns co aso \<noteq> {}"
      then obtain x where x: "x \<in> owns c' as'" "x \<in> owns co aso" by blast
      then have "x \<in> owns c as \<or> brk s \<le> x" using c by blast
      then show False using x(2) below sep unfolding separate_def by fastforce
    qed
    show "buckets c' \<noteq> buckets co"
      using c d(9) sep unfolding separate_def by fastforce
  qed
qed

lemma walk_spec:
  assumes S: "lhm_struct T s c (xs @ ys)" and M: "maps s this = Some c"
  shows "walk s this \<lparr>node_it = Some (hd (ys @ [tail c])), map_it = Some this\<rparr> =
           Some (contents s ys)"
  using S
proof (induction ys arbitrary: xs)
  case Nil
  then show ?case
    using M by (subst walk.simps) (simp add: end_it_def iter_neq_def iter_eq_def contents_def)
next
  case (Cons a ys)
  note d = structD[OF Cons.prems]
  have at: "a \<noteq> tail c" using d(1) by auto
  from d(3) obtain da where da: "entry s a = Some da" by auto
  from dll_remove(2)[OF d(2) d(1) refl refl] obtain na where na: "nodes s a = Some na"
    "next na = Some (hd (ys @ [tail c]))"
    by (auto simp: view_Some)
  have dd: "data na = Some da" using da na(1) by (simp add: entry_def)
  have "lhm_struct T s c ((xs @ [a]) @ ys)" using Cons.prems by simp
  from Cons.IH[OF this]
  have ih: "walk s this \<lparr>node_it = Some (hd (ys @ [tail c])), map_it = Some this\<rparr> =
      Some (contents s ys)" .
  show "walk s this \<lparr>node_it = Some (hd ((a # ys) @ [tail c])), map_it = Some this\<rparr> =
      Some (contents s (a # ys))"
    using M at na dd ih da
    by (subst walk.simps)
      (simp add: end_it_def iter_neq_def iter_eq_def iter_deref_def load_def iter_inc_def
        contents_def)
qed

lemma iterate_spec:
  assumes S: "lhm_struct T s c as" and M: "maps s this = Some c"
  shows "iterate s this = Some (contents s as)"
proof -
  from dll_first(1)[OF structD(2)[OF S]] obtain hn where "nodes s (head c) = Some hn"
    "next hn = Some (hd (as @ [tail c]))"
    by (auto simp: view_Some)
  then show ?thesis
    using walk_spec[of T s c "[]" as this] S M by (simp add: iterate_def begin_it_def)
qed

lemma init_sentinels_eq:
  "init_sentinels s =
     Some (brk s, Suc (brk s),
       s\<lparr>nodes := (nodes s)(brk s \<mapsto> \<lparr>data = None, next_in_bucket = None, prev = None,
                                     next = Some (Suc (brk s))\<rparr>,
                           Suc (brk s) \<mapsto> \<lparr>data = None, next_in_bucket = None,
                                           prev = Some (brk s), next = None\<rparr>),
         brk := Suc (Suc (brk s))\<rparr>)"
  by (simp add: init_sentinels_def new_Node_def set_next_def set_prev_def store_def fun_upd_twist)

lemma fresh_map_inv:
  assumes "0 < n"
  shows "lhm_inv T (fresh_map this n s)
           \<lparr>head = brk s, tail = Suc (brk s), buckets = Suc (Suc (brk s)),
            bucket_count = n, element_count = 0\<rparr> []"
  using assms
  by (simp add: lhm_inv_def lhm_struct_def dll_def Link_def keys_distinct_def table_ok_def
      fresh_map_def next_of_def prev_of_def)

lemma fresh_map_frame:
  "maps (fresh_map this n s) this =
     Some \<lparr>head = brk s, tail = Suc (brk s), buckets = Suc (Suc (brk s)),
           bucket_count = n, element_count = 0\<rparr>"
  "m \<noteq> this \<Longrightarrow> maps (fresh_map this n s) m = maps s m"
  "a < brk s \<Longrightarrow> nodes (fresh_map this n s) a = nodes s a"
  "a < brk s \<Longrightarrow> arrays (fresh_map this n s) a = arrays s a"
  "brk (fresh_map this n s) = Suc (Suc (Suc (brk s)))"
  by (simp_all add: fresh_map_def)

lemma ctor_eq:
  "linked_hashmap_ctor this s = Some (fresh_map this INITIAL_BUCKET_COUNT s)"
  by (simp add: linked_hashmap_ctor_def init_sentinels_eq init_buckets_def new_array_def
      set_map_def fresh_map_def)

lemma fresh_other:
  assumes "lhm_inv T s co aso"
  shows "lhm_inv T (fresh_map this n s) co aso"
    "contents (fresh_map this n s) aso = contents s aso"
    "separate \<lparr>head = brk s, tail = Suc (brk s), buckets = Suc (Suc (brk s)),
            bucket_count = n, element_count = 0\<rparr> [] co aso"
proof -
  have S: "lhm_struct T s co aso" using assms by (simp add: lhm_inv_def)
  note d = structD[OF S]
  have below: "\<And>a. a \<in> owns co aso \<Longrightarrow> a < brk s" using d(8) by (auto simp: owns_def)
  have "lhm_struct T (fresh_map this n s) co aso"
    by (rule struct_frame[OF S]) (use below d(9) in \<open>auto simp: fresh_map_frame\<close>)
  then show "lhm_inv T (fresh_map this n s) co aso" using assms by (simp add: lhm_inv_def)
  show "contents (fresh_map this n s) aso = contents s aso"
    by (rule contents_frame) (use below in \<open>auto simp: fresh_map_frame owns_def\<close>)
  show "separate \<lparr>head = brk s, tail = Suc (brk s), buckets = Suc (Suc (brk s)),
            bucket_count = n, element_count = 0\<rparr> [] co aso"
    using below d(9) by (fastforce simp: separate_def owns_def)
qed

lemma delete_loop_spec:
  assumes "maps s this = Some c"
    and "successively (Link (next_of s) (prev_of s)) (ys @ [tail c])" "distinct (ys @ [tail c])"
  shows "\<exists>s'. delete_loop this (Some (hd (ys @ [tail c]))) s = Some s' \<and>
     (\<forall>x. nodes s' x = (if x \<in> set ys then None else nodes s x)) \<and>
     arrays s' = arrays s \<and> maps s' = maps s \<and> brk s' = brk s"
  using assms
proof (induction ys arbitrary: s)
  case Nil
  then show ?case by (subst delete_loop.simps) simp
next
  case (Cons a ys)
  let ?t = "tail c"
  have at: "a \<noteq> ?t" "a \<notin> set (ys @ [?t])" using Cons.prems(3) by auto
  have lk: "Link (next_of s) (prev_of s) a (hd (ys @ [?t]))"
    and suc: "successively (Link (next_of s) (prev_of s)) (ys @ [?t])"
    using Cons.prems(2) by (auto simp: successively_Cons)
  from lk obtain na where na: "nodes s a = Some na" "next na = Some (hd (ys @ [?t]))"
    by (auto simp: Link_def view_Some)
  define s1 where "s1 = s\<lparr>nodes := (nodes s)(a := None)\<rparr>"
  have step: "delete_loop this (Some (hd ((a # ys) @ [?t]))) s =
      delete_loop this (Some (hd (ys @ [?t]))) s1"
    using Cons.prems(1) na at(1)
    by (subst delete_loop.simps) (simp add: load_def delete_Node_def s1_def)
  have v1: "\<And>x. x \<noteq> a \<Longrightarrow> next_of s1 x = next_of s x \<and> prev_of s1 x = prev_of s x"
    by (simp add: s1_def next_of_def prev_of_def)
  have suc1: "successively (Link (next_of s1) (prev_of s1)) (ys @ [?t])"
  proof (rule successively_mono[OF suc])
    fix x y assume xy: "x \<in> set (ys @ [?t])" "y \<in> set (ys @ [?t])"
      "Link (next_of s) (prev_of s) x y"
    then have "x \<noteq> a" "y \<noteq> a" using at(2) by auto
    then show "Link (next_of s1) (prev_of s1) x y" using v1 xy(3) by (simp add: Link_def)
  qed
  have "\<exists>s'. delete_loop this (Some (hd (ys @ [?t]))) s1 = Some s' \<and>
     (\<forall>x. nodes s' x = (if x \<in> set ys then None else nodes s1 x)) \<and>
     arrays s' = arrays s1 \<and> maps s' = maps s1 \<and> brk s' = brk s1"
    by (rule Cons.IH) (use Cons.prems suc1 in \<open>auto simp: s1_def\<close>)
  then obtain s' where s': "delete_loop this (Some (hd (ys @ [?t]))) s1 = Some s'"
     "\<forall>x. nodes s' x = (if x \<in> set ys then None else nodes s1 x)"
     "arrays s' = arrays s1" "maps s' = maps s1" "brk s' = brk s1"
    by blast
  show "\<exists>s'. delete_loop this (Some (hd ((a # ys) @ [?t]))) s = Some s' \<and>
     (\<forall>x. nodes s' x = (if x \<in> set (a # ys) then None else nodes s x)) \<and>
     arrays s' = arrays s \<and> maps s' = maps s \<and> brk s' = brk s"
    unfolding step using s' by (intro exI[of _ s']) (auto simp: s1_def)
qed

lemma fold_write_bucket:
  assumes "arrays s b = Some bs" "k \<le> length bs"
  shows "fold (\<lambda>i r. Option.bind r (write_bucket b i None)) [0 ..< k] (Some s) =
     Some (s\<lparr>arrays := (arrays s)(b \<mapsto> replicate k None @ drop k bs)\<rparr>)"
  using assms(2)
proof (induction k)
  case 0
  have "(arrays s)(b \<mapsto> bs) = arrays s" using assms(1) by (simp add: fun_upd_idem)
  then have "s\<lparr>arrays := (arrays s)(b \<mapsto> bs)\<rparr> = s" by simp
  then show "fold (\<lambda>i r. Option.bind r (write_bucket b i None)) [0 ..< 0] (Some s) =
     Some (s\<lparr>arrays := (arrays s)(b \<mapsto> replicate 0 None @ drop 0 bs)\<rparr>)"
    by simp
next
  case (Suc k)
  have ih: "fold (\<lambda>i r. Option.bind r (write_bucket b i None)) [0 ..< k] (Some s) =
     Some (s\<lparr>arrays := (arrays s)(b \<mapsto> replicate k None @ drop k bs)\<rparr>)"
    by (rule Suc.IH) (use Suc.prems in simp)
  have "(replicate k None @ drop k bs)[k := None] = replicate (Suc k) None @ drop (Suc k) bs"
    using Suc.prems
    by (simp add: list_update_append replicate_append_same upd_conv_take_nth_drop)
  then show "fold (\<lambda>i r. Option.bind r (write_bucket b i None)) [0 ..< Suc k] (Some s) =
     Some (s\<lparr>arrays := (arrays s)(b \<mapsto> replicate (Suc k) None @ drop (Suc k) bs)\<rparr>)"
    using Suc.prems by (simp add: ih write_bucket_def)
qed

lemma struct_loop_pre:
  assumes S: "lhm_struct T s c as"
  obtains hn where "nodes s (head c) = Some hn" "next hn = Some (hd (as @ [tail c]))"
    "successively (Link (next_of s) (prev_of s)) (as @ [tail c])" "distinct (as @ [tail c])"
    "nodes s (tail c) \<noteq> None" "head c \<notin> set as" "tail c \<notin> set as" "head c \<noteq> tail c"
proof -
  note d = structD[OF S]
  from dll_first(1)[OF d(2)] obtain hn where hn: "nodes s (head c) = Some hn"
    "next hn = Some (hd (as @ [tail c]))"
    by (auto simp: view_Some)
  have suc: "successively (Link (next_of s) (prev_of s)) (as @ [tail c])"
    using d(2) by (auto simp: dll_def successively_Cons)
  have "nodes s (tail c) \<noteq> None" using dll_last(2)[OF d(2)] by (auto simp: view_Some)
  then show ?thesis using that[OF hn suc] d(1) by auto
qed

lemma clear_spec:
  assumes S: "lhm_struct T s c as" and M: "maps s this = Some c"
  obtains s' c' where "clear this s = Some s'" "maps s' this = Some c'" "lhm_inv T s' c' []"
    "c' = c\<lparr>element_count := 0\<rparr>" "changes_only this s c as s' c' []"
proof -
  note d = structD[OF S]
  from struct_loop_pre[OF S] obtain hn where hn: "nodes s (head c) = Some hn"
    "next hn = Some (hd (as @ [tail c]))"
    and suc: "successively (Link (next_of s) (prev_of s)) (as @ [tail c])"
    and dist: "distinct (as @ [tail c])"
    and tl: "nodes s (tail c) \<noteq> None" and nin: "head c \<notin> set as" "tail c \<notin> set as"
    and ht: "head c \<noteq> tail c"
    by blast
  from delete_loop_spec[OF M suc dist] obtain s1 where s1:
    "delete_loop this (Some (hd (as @ [tail c]))) s = Some s1"
    "\<forall>x. nodes s1 x = (if x \<in> set as then None else nodes s x)"
    "arrays s1 = arrays s" "maps s1 = maps s" "brk s1 = brk s"
    by blast
  have "nodes s1 (head c) \<noteq> None" using s1(2) nin hn by simp
  from set_next_views[OF this, of "Some (tail c)"] obtain s2 where s2:
    "set_next (Some (head c)) (Some (tail c)) s1 = Some s2"
    "next_of s2 = (next_of s1)(head c \<mapsto> Some (tail c))" "prev_of s2 = prev_of s1"
    "nib_of s2 = nib_of s1" "entry s2 = entry s1" "arrays s2 = arrays s1" "maps s2 = maps s1"
    "brk s2 = brk s1" "\<And>x. x \<noteq> head c \<Longrightarrow> nodes s2 x = nodes s1 x"
    "\<And>x. nodes s2 x = None \<longleftrightarrow> nodes s1 x = None"
    by blast
  have "nodes s2 (tail c) \<noteq> None" using s2(10) s1(2) nin tl by simp
  from set_prev_views[OF this, of "Some (head c)"] obtain s3 where s3:
    "set_prev (Some (tail c)) (Some (head c)) s2 = Some s3"
    "next_of s3 = next_of s2" "prev_of s3 = (prev_of s2)(tail c \<mapsto> Some (head c))"
    "nib_of s3 = nib_of s2" "entry s3 = entry s2" "arrays s3 = arrays s2" "maps s3 = maps s2"
    "brk s3 = brk s2" "\<And>x. x \<noteq> tail c \<Longrightarrow> nodes s3 x = nodes s2 x"
    "\<And>x. nodes s3 x = None \<longleftrightarrow> nodes s2 x = None"
    by blast
  from d(7) obtain bs where bs: "arrays s (buckets c) = Some bs"
    "table_ok T (nib_of s) (entry s) bs (bucket_count c) as" by blast
  have len: "length bs = bucket_count c" using bs(2) by (simp add: table_ok_def)
  have bs3: "arrays s3 (buckets c) = Some bs" using bs(1) s1(3) s2(6) s3(6) by simp
  define s4 where "s4 = s3\<lparr>arrays := (arrays s3)(buckets c \<mapsto> replicate (bucket_count c) None)\<rparr>"
  have f: "fold (\<lambda>i r. Option.bind r (write_bucket (buckets c) i None)) [0 ..< bucket_count c]
      (Some s3) = Some s4"
    using fold_write_bucket[OF bs3, of "bucket_count c"] len by (simp add: s4_def)
  define c' where "c' = c\<lparr>element_count := 0\<rparr>"
  define s' where "s' = set_map this c' s4"
  have m3: "maps s3 this = Some c" using M s1(4) s2(7) s3(7) by simp
  have cl: "clear this s = Some s'"
    unfolding clear_def
    using M hn s1(1) s1(4) s2(1) s3(1) f m3
    by (simp add: s'_def c'_def s4_def)
  have v4: "next_of s4 = next_of s3" "prev_of s4 = prev_of s3" "nib_of s4 = nib_of s3"
    "entry s4 = entry s3" "nodes s4 = nodes s3" "maps s4 = maps s3" "brk s4 = brk s3"
    "arrays s4 = (arrays s3)(buckets c \<mapsto> replicate (bucket_count c) None)"
    by (auto simp: s4_def next_of_def prev_of_def nib_of_def entry_def fun_eq_iff)
  have st: "lhm_struct T s' c' []"
    unfolding lhm_struct_def
    using ht d(6,8,9)
    by (simp add: c'_def s'_def view_set_map v4 s3 s2 s1 dll_def Link_def keys_distinct_def
        table_ok_def)
  have nd: "nodes s' x = nodes s x" if "x \<notin> set (head c # as @ [tail c])" for x
    using that s3(9)[of x] s2(9)[of x] s1(2) by (simp add: s'_def view_set_map v4)
  have ch: "changes_only this s c as s' c' []"
    unfolding changes_only_def owns_def
    using nd by (auto simp: s'_def view_set_map v4 s3 s2 s1 c'_def)
  show ?thesis
    using that[OF cl _ _ c'_def ch] st by (simp add: s'_def view_set_map lhm_inv_def)
qed

lemma clear_all_spec:
  assumes S: "lhm_struct T s c as" and M: "maps s this = Some c"
  obtains s' where "clear_all this s = Some s'"
    "\<forall>x. nodes s' x = (if x \<in> owns c as then None else nodes s x)"
    "arrays s' = (arrays s)(buckets c := None)" "maps s' = maps s" "brk s' = brk s"
proof -
  note d = structD[OF S]
  from struct_loop_pre[OF S] obtain hn where hn: "nodes s (head c) = Some hn"
    "next hn = Some (hd (as @ [tail c]))"
    and suc: "successively (Link (next_of s) (prev_of s)) (as @ [tail c])"
    and dist: "distinct (as @ [tail c])"
    and tl: "nodes s (tail c) \<noteq> None" and nin: "head c \<notin> set as" "tail c \<notin> set as"
    and ht: "head c \<noteq> tail c"
    by blast
  from delete_loop_spec[OF M suc dist] obtain s1 where s1:
    "delete_loop this (Some (hd (as @ [tail c]))) s = Some s1"
    "\<forall>x. nodes s1 x = (if x \<in> set as then None else nodes s x)"
    "arrays s1 = arrays s" "maps s1 = maps s" "brk s1 = brk s"
    by blast
  from d(7) obtain bs where bs: "arrays s (buckets c) = Some bs" by blast
  define s' where "s' = s1\<lparr>nodes := (nodes s1)(head c := None, tail c := None),
      arrays := (arrays s1)(buckets c := None)\<rparr>"
  from tl obtain tn where tn: "nodes s (tail c) = Some tn" by auto
  have "clear_all this s = Some s'"
    unfolding clear_all_def
    using M hn s1 nin ht tn bs
    by (simp add: delete_Node_def delete_array_def s'_def)
  moreover have "\<forall>x. nodes s' x = (if x \<in> owns c as then None else nodes s x)"
    using s1(2) by (auto simp: s'_def owns_def)
  ultimately show ?thesis using that[of s'] s1(3-5) by (simp add: s'_def)
qed

lemma lookup_None_contents:
  assumes "\<forall>a\<in>set as. entry s a \<noteq> None"
  shows "lookup T s as k = None \<longleftrightarrow> (\<forall>kv\<in>set (contents s as). \<not> equal_func T (fst kv) k)"
  using assms by (auto simp: lookup_None_iff holds_key_def contents_def split: option.splits)

lemma keys_distinct_prefix:
  assumes "keys_distinct T (entry s) (xs @ a # ys)" "distinct (xs @ a # ys)"
    "\<forall>x\<in>set (xs @ a # ys). entry s x \<noteq> None" "entry s a = Some d"
  shows "\<forall>kv\<in>set (contents s xs). \<not> equal_func T (fst kv) (fst d)"
proof
  fix kv assume "kv \<in> set (contents s xs)"
  then obtain x where x: "x \<in> set xs" "kv = the (entry s x)" by (auto simp: contents_def)
  have "entry s x \<noteq> None" using assms(3) x(1) by simp
  then obtain dx where dx: "entry s x = Some dx" by blast
  have "x \<noteq> a" using x(1) assms(2) by auto
  then have "\<not> equal_func T (fst dx) (fst d)"
    using assms(1,4) dx x(1) unfolding keys_distinct_def by (metis Un_iff list.set_intros(1) set_append)
  then show "\<not> equal_func T (fst kv) (fst d)" using x(2) dx by simp
qed

lemma deep_copy_loop_spec:
  assumes H: "hash_ok T" and ne: "this \<noteq> other"
    and "maps s this = Some c" "lhm_inv T s c as"
    and "maps s other = Some co" "lhm_inv T s co (xs @ ys)"
    and "separate c as co (xs @ ys)"
    and "contents s as = contents s xs"
    and "4 * length (xs @ ys) \<le> 3 * bucket_count c"
  shows "\<exists>s' c' as'. deep_copy_loop T this other (Some (hd (ys @ [tail co]))) s = Some s' \<and>
     maps s' this = Some c' \<and> lhm_inv T s' c' as' \<and> contents s' as' = contents s (xs @ ys) \<and>
     bucket_count c' = bucket_count c \<and> maps s' other = Some co \<and>
     lhm_inv T s' co (xs @ ys) \<and> contents s' (xs @ ys) = contents s (xs @ ys) \<and>
     separate c' as' co (xs @ ys) \<and> changes_only this s c as s' c' as'"
  using assms(3-)
proof (induction ys arbitrary: s c as xs)
  case Nil
  have "deep_copy_loop T this other (Some (hd ([] @ [tail co]))) s = Some s"
    using Nil.prems(3) by (subst deep_copy_loop.simps) simp
  then show ?case
    using Nil.prems changes_only_refl[of this s c as]
    by (intro exI[of _ s] exI[of _ c] exI[of _ as]) simp
next
  case (Cons a ys)
  let ?aso = "xs @ a # ys"
  have So: "lhm_struct T s co ?aso" using Cons.prems(4) by (simp add: lhm_inv_def)
  have Sc: "lhm_struct T s c as" using Cons.prems(2) by (simp add: lhm_inv_def)
  note d = structD[OF So]
  have at: "a \<noteq> tail co" using d(1) by auto
  from d(3) obtain da where da: "entry s a = Some da" by auto
  from dll_remove(2)[OF d(2) d(1) refl refl] obtain na where na: "nodes s a = Some na"
    "next na = Some (hd (ys @ [tail co]))"
    by (auto simp: view_Some)
  have dd: "data na = Some da" using da na(1) by (simp add: entry_def)
  have "\<forall>kv\<in>set (contents s xs). \<not> equal_func T (fst kv) (fst da)"
    by (rule keys_distinct_prefix[OF d(4) _ d(3) da]) (use d(1) in simp)
  then have abs: "lookup T s as (fst da) = None"
    using lookup_None_contents[OF structD(3)[OF Sc], of T "fst da"] Cons.prems(6) by simp
  have len: "length as = length xs"
    using Cons.prems(6) by (metis contents_def length_map)
  from insert_absent[OF H Cons.prems(2,1) abs, of "snd da"] obtain s1 c1 n1 where i1:
    "insert_lhm T this (fst da, snd da) s = Some ((\<lparr>node_it = Some n1, map_it = Some this\<rparr>, True), s1)"
    "maps s1 this = Some c1" "lhm_inv T s1 c1 (as @ [n1])"
    "entry s1 = (entry s)(n1 \<mapsto> (fst da, snd da))" "brk s \<le> n1"
    "bucket_count c1 =
       (if 3 * bucket_count c < 4 * (length as + 1) then bucket_count c * 2 else bucket_count c)"
    "changes_only this s c as s1 c1 (as @ [n1])"
    by metis
  have bc1: "bucket_count c1 = bucket_count c" using i1(6) Cons.prems(7) len by simp
  note fo = frame_other[OF i1(7) Cons.prems(4,5)]
  have mo1: "maps s1 other = Some co"
    using i1(7) Cons.prems(3) ne unfolding changes_only_def by metis
  have na1: "nodes s1 a = Some na" using fo(4) na(1) by (simp add: owns_def)
  have n1as: "n1 \<notin> set as"
  proof
    assume "n1 \<in> set as"
    then have "n1 < brk s" using structD(8)[OF Sc] by simp
    then show False using i1(5) by simp
  qed
  have n1o: "n1 \<notin> set ?aso"
  proof
    assume "n1 \<in> set ?aso"
    then have "n1 \<in> set (head co # ?aso @ [tail co])" by auto
    then have "n1 < brk s" using d(8) by blast
    then show False using i1(5) by simp
  qed
  have c1: "contents s1 (as @ [n1]) = contents s1 (xs @ [a])"
  proof -
    have "contents s1 (as @ [n1]) = contents s as @ [da]"
      using n1as by (simp add: contents_def i1(4))
    also have "\<dots> = contents s (xs @ [a])" using Cons.prems(6) da by (simp add: contents_def)
    also have "\<dots> = contents s1 (xs @ [a])" using n1o by (simp add: contents_def i1(4))
    finally show ?thesis .
  qed
  have "\<exists>s' c' as'. deep_copy_loop T this other (Some (hd (ys @ [tail co]))) s1 = Some s' \<and>
     maps s' this = Some c' \<and> lhm_inv T s' c' as' \<and>
     contents s' as' = contents s1 ((xs @ [a]) @ ys) \<and>
     bucket_count c' = bucket_count c1 \<and> maps s' other = Some co \<and>
     lhm_inv T s' co ((xs @ [a]) @ ys) \<and>
     contents s' ((xs @ [a]) @ ys) = contents s1 ((xs @ [a]) @ ys) \<and>
     separate c' as' co ((xs @ [a]) @ ys) \<and> changes_only this s1 c1 (as @ [n1]) s' c' as'"
    by (rule Cons.IH[OF i1(2,3) mo1 _ _ c1]) (use fo Cons.prems(7) bc1 in simp_all)
  then obtain s' c' as' where r:
    "deep_copy_loop T this other (Some (hd (ys @ [tail co]))) s1 = Some s'"
    "maps s' this = Some c'" "lhm_inv T s' c' as'"
    "contents s' as' = contents s1 ?aso"
    "bucket_count c' = bucket_count c1" "maps s' other = Some co"
    "lhm_inv T s' co ?aso" "contents s' ?aso = contents s1 ?aso"
    "separate c' as' co ?aso" "changes_only this s1 c1 (as @ [n1]) s' c' as'"
    by auto
  have step: "deep_copy_loop T this other (Some (hd ((a # ys) @ [tail co]))) s =
      deep_copy_loop T this other (Some (hd (ys @ [tail co]))) s1"
    using Cons.prems(3) at na dd i1(1) na1
    by (subst deep_copy_loop.simps) (simp add: load_def)
  show "\<exists>s' c' as'. deep_copy_loop T this other (Some (hd ((a # ys) @ [tail co]))) s = Some s' \<and>
     maps s' this = Some c' \<and> lhm_inv T s' c' as' \<and> contents s' as' = contents s ?aso \<and>
     bucket_count c' = bucket_count c \<and> maps s' other = Some co \<and>
     lhm_inv T s' co ?aso \<and> contents s' ?aso = contents s ?aso \<and>
     separate c' as' co ?aso \<and> changes_only this s c as s' c' as'"
    unfolding step
    using r fo(2) bc1 changes_only_trans[OF i1(7) r(10)]
    by (intro exI[of _ s'] exI[of _ c'] exI[of _ as']) simp
qed

lemma deep_copy_spec:
  assumes H: "hash_ok T" and ne: "this \<noteq> other"
    and Mo: "maps s other = Some co" and Io: "lhm_inv T s co aso"
  obtains s' c' as' where "deep_copy T this other s = Some s'"
    "maps s' this = Some c'" "lhm_inv T s' c' as'" "contents s' as' = contents s aso"
    "bucket_count c' = bucket_count co" "maps s' other = Some co"
    "lhm_inv T s' co aso" "contents s' aso = contents s aso" "separate c' as' co aso"
    "\<forall>a<brk s. nodes s' a = nodes s a \<and> arrays s' a = arrays s a"
    "\<forall>m. m \<noteq> this \<longrightarrow> maps s' m = maps s m" "brk s \<le> brk s'"
    "\<forall>a\<in>owns c' as'. brk s \<le> a" "brk s \<le> buckets c'"
proof -
  have So: "lhm_struct T s co aso" and ld: "4 * length aso \<le> 3 * bucket_count co"
    using Io by (simp_all add: lhm_inv_def)
  note d = structD[OF So]
  define n where "n = bucket_count co"
  define s0 where "s0 = fresh_map this n s"
  define c0 where "c0 = \<lparr>head = brk s, tail = Suc (brk s), buckets = Suc (Suc (brk s)),
            bucket_count = n, element_count = 0\<rparr>"
  have n0: "0 < n" using d(6) by (simp add: n_def)
  from dll_first(1)[OF d(2)] obtain oh where oh: "nodes s (head co) = Some oh"
    "next oh = Some (hd (aso @ [tail co]))"
    by (auto simp: view_Some)
  have hb: "head co < brk s" using d(8) by simp
  have oh0: "nodes s0 (head co) = Some oh" using oh(1) hb by (simp add: s0_def fresh_map_frame)
  have mo0: "maps s0 other = Some co" using Mo ne by (simp add: s0_def fresh_map_frame)
  have m0: "maps s0 this = Some c0" by (simp add: s0_def c0_def fresh_map_frame)
  have i0: "lhm_inv T s0 c0 []" unfolding s0_def c0_def by (rule fresh_map_inv[OF n0])
  note fo = fresh_other(1)[OF Io, where this = this and n = n, folded s0_def]
    fresh_other(2)[OF Io, where this = this and n = n, folded s0_def]
    fresh_other(3)[OF Io, where n = n, folded c0_def]
  have dc: "deep_copy T this other s = deep_copy_loop T this other (Some (hd (aso @ [tail co]))) s0"
    unfolding deep_copy_def init_sentinels_eq
    using Mo ne oh hb
    by (simp add: init_buckets_def new_array_def set_map_def s0_def fresh_map_def n_def)
  have "\<exists>s' c' as'. deep_copy_loop T this other (Some (hd (aso @ [tail co]))) s0 = Some s' \<and>
     maps s' this = Some c' \<and> lhm_inv T s' c' as' \<and> contents s' as' = contents s0 ([] @ aso) \<and>
     bucket_count c' = bucket_count c0 \<and> maps s' other = Some co \<and>
     lhm_inv T s' co ([] @ aso) \<and> contents s' ([] @ aso) = contents s0 ([] @ aso) \<and>
     separate c' as' co ([] @ aso) \<and> changes_only this s0 c0 [] s' c' as'"
    by (rule deep_copy_loop_spec[OF H ne m0 i0 mo0])
      (use fo ld in \<open>simp_all add: contents_def c0_def n_def\<close>)
  then obtain s' c' as' where r:
    "deep_copy_loop T this other (Some (hd (aso @ [tail co]))) s0 = Some s'"
    "maps s' this = Some c'" "lhm_inv T s' c' as'" "contents s' as' = contents s0 aso"
    "bucket_count c' = bucket_count c0" "maps s' other = Some co"
    "lhm_inv T s' co aso" "contents s' aso = contents s0 aso"
    "separate c' as' co aso" "changes_only this s0 c0 [] s' c' as'"
    by auto
  note ch = r(10)[unfolded changes_only_def]
  have b0: "brk s0 = Suc (Suc (Suc (brk s)))" by (simp add: s0_def fresh_map_frame)
  have ow0: "owns c0 [] = {brk s, Suc (brk s)}" by (auto simp: owns_def c0_def)
  have f1: "\<forall>a<brk s. nodes s' a = nodes s a \<and> arrays s' a = arrays s a"
  proof (intro allI impI)
    fix a assume a: "a < brk s"
    then have "a < brk s0" "a \<notin> owns c0 []" by (simp_all add: b0 ow0)
    moreover have "a \<noteq> buckets c0" using a by (simp add: c0_def)
    ultimately have "a < brk s0" "a \<notin> owns c0 []" "a \<noteq> buckets c0" by blast+
    then have "nodes s' a = nodes s0 a" "arrays s' a = arrays s0 a" using ch by blast+
    then show "nodes s' a = nodes s a \<and> arrays s' a = arrays s a"
      using a by (simp add: s0_def fresh_map_frame)
  qed
  have f2: "\<forall>m. m \<noteq> this \<longrightarrow> maps s' m = maps s m"
    using ch by (simp add: s0_def fresh_map_frame)
  have f3: "brk s \<le> brk s'" using ch b0 by linarith
  have f4: "\<forall>a\<in>owns c' as'. brk s \<le> a"
  proof
    fix a assume "a \<in> owns c' as'"
    then have "a \<in> owns c0 [] \<or> brk s0 \<le> a" using ch by blast
    then show "brk s \<le> a" using b0 ow0 by auto
  qed
  have f5: "brk s \<le> buckets c'"
  proof -
    have "buckets c' = buckets c0 \<or> brk s0 \<le> buckets c'" using ch by blast
    then show ?thesis using b0 by (auto simp: c0_def)
  qed
  show ?thesis
    using that[OF dc[unfolded r(1)] r(2,3) _ _ r(6,7) _ r(9) f1 f2 f3 f4 f5] r(4,5,8) fo(2)
    by (simp add: c0_def n_def)
qed

lemma assign_spec:
  assumes H: "hash_ok T" and ne: "this \<noteq> other"
    and M: "maps s this = Some c" and I: "lhm_inv T s c as"
    and Mo: "maps s other = Some co" and Io: "lhm_inv T s co aso"
    and sep: "separate c as co aso"
  obtains s' c' as' where "assign T this other s = Some s'"
    "maps s' this = Some c'" "lhm_inv T s' c' as'" "contents s' as' = contents s aso"
    "bucket_count c' = bucket_count co" "maps s' other = Some co"
    "lhm_inv T s' co aso" "contents s' aso = contents s aso" "separate c' as' co aso"
proof -
  have S: "lhm_struct T s c as" using I by (simp add: lhm_inv_def)
  have So: "lhm_struct T s co aso" using Io by (simp add: lhm_inv_def)
  from clear_all_spec[OF S M] obtain s1 where s1: "clear_all this s = Some s1"
    "\<forall>x. nodes s1 x = (if x \<in> owns c as then None else nodes s x)"
    "arrays s1 = (arrays s)(buckets c := None)" "maps s1 = maps s" "brk s1 = brk s"
    by blast
  have n1: "\<forall>a\<in>owns co aso. nodes s1 a = nodes s a"
    using s1(2) sep unfolding separate_def by auto
  have "lhm_struct T s1 co aso"
    by (rule struct_frame[OF So n1]) (use s1(3,5) sep in \<open>auto simp: separate_def\<close>)
  then have Io1: "lhm_inv T s1 co aso" using Io by (simp add: lhm_inv_def)
  have c1: "contents s1 aso = contents s aso"
    by (rule contents_frame) (use n1 in \<open>auto simp: owns_def\<close>)
  have Mo1: "maps s1 other = Some co" using Mo s1(4) by simp
  from deep_copy_spec[OF H ne Mo1 Io1] obtain s' c' as' where r:
    "deep_copy T this other s1 = Some s'"
    "maps s' this = Some c'" "lhm_inv T s' c' as'" "contents s' as' = contents s1 aso"
    "bucket_count c' = bucket_count co" "maps s' other = Some co"
    "lhm_inv T s' co aso" "contents s' aso = contents s1 aso" "separate c' as' co aso"
    "\<forall>a<brk s1. nodes s' a = nodes s1 a \<and> arrays s' a = arrays s1 a"
    "\<forall>m. m \<noteq> this \<longrightarrow> maps s' m = maps s1 m" "brk s1 \<le> brk s'"
    "\<forall>a\<in>owns c' as'. brk s1 \<le> a" "brk s1 \<le> buckets c'"
    by blast
  have a: "assign T this other s = Some s'" using ne s1(1) r(1) by (simp add: assign_def)
  show ?thesis
    by (rule that[OF a r(2,3) _ r(5,6,7) _ r(9)]) (simp_all add: r(4,8) c1)
qed

lemma lookup_Some_entry:
  assumes "lookup T s as k = Some a"
  obtains d where "a \<in> set as" "entry s a = Some d" "equal_func T (fst d) k"
  using lookup_SomeD[OF assms] by (auto simp: holds_key_def split: option.splits)

lemma count_spec:
  assumes "hash_ok T" "lhm_struct T s c as" "maps s this = Some c"
  shows "count T s this k = Some (if lookup T s as k = None then 0 else 1)"
  using lookup_spec[OF assms, of k] by (simp add: count_def)

lemma find_spec:
  assumes "hash_ok T" "lhm_struct T s c as" "maps s this = Some c"
  shows "find_lhm T s this k =
     Some \<lparr>node_it = Some (case lookup T s as k of None \<Rightarrow> tail c | Some a \<Rightarrow> a),
           map_it = Some this\<rparr>"
  using lookup_spec[OF assms, of k] assms(3)
  by (auto simp: find_lhm_def end_it_def split: option.splits)

lemma at_spec:
  assumes "hash_ok T" "lhm_struct T s c as" "maps s this = Some c"
  shows "at T s this k =
     Some (case lookup T s as k of None \<Rightarrow> Inl index_out_of_bound | Some a \<Rightarrow> Inr a)"
proof (cases "lookup T s as k")
  case None
  then show ?thesis using lookup_spec[OF assms, of k] by (simp add: at_def)
next
  case (Some a)
  from lookup_Some_entry[OF Some] obtain d where "entry s a = Some d" by blast
  then obtain n where "nodes s a = Some n" "data n = Some d" by (auto simp: view_Some)
  then show ?thesis using lookup_spec[OF assms, of k] Some by (simp add: at_def)
qed

lemma read_ref_entry: "entry s a = Some d \<Longrightarrow> read_ref s a = Some (snd d)"
  by (auto simp: read_ref_def view_Some)

lemma write_ref_spec:
  assumes S: "lhm_inv T s c as" and a: "a \<in> set as" and d: "entry s a = Some d"
  obtains s' where "write_ref a v s = Some s'" "lhm_inv T s' c as"
    "entry s' = (entry s)(a \<mapsto> (fst d, v))" "maps s' = maps s"
    "changes_only this s c as s' c as"
proof -
  from d obtain n where n: "nodes s a = Some n" "data n = Some d" by (auto simp: view_Some)
  define s' where "s' = store a (n\<lparr>data := Some (fst d, v)\<rparr>) s"
  have w: "write_ref a v s = Some s'" using n by (simp add: write_ref_def s'_def)
  have v': "next_of s' = next_of s" "prev_of s' = prev_of s" "nib_of s' = nib_of s"
    "entry s' = (entry s)(a \<mapsto> (fst d, v))" "arrays s' = arrays s" "maps s' = maps s"
    "brk s' = brk s" "\<And>x. x \<noteq> a \<Longrightarrow> nodes s' x = nodes s x"
    using n by (auto simp: s'_def store_def next_of_def prev_of_def nib_of_def entry_def fun_eq_iff)
  have St: "lhm_struct T s c as" using S by (simp add: lhm_inv_def)
  note dd = structD[OF St]
  have kd: "keys_distinct T (entry s') as"
    unfolding keys_distinct_def
  proof (intro ballI allI impI)
    fix x y e e' assume xy: "x \<in> set as" "y \<in> set as" "entry s' x = Some e" "entry s' y = Some e'"
      "equal_func T (fst e) (fst e')"
    obtain ex where ex: "entry s x = Some ex" "fst ex = fst e"
      using xy(3) d by (cases "x = a") (auto simp: v')
    obtain ey where ey: "entry s y = Some ey" "fst ey = fst e'"
      using xy(4) d by (cases "y = a") (auto simp: v')
    show "x = y" using dd(4) xy(1,2,5) ex ey unfolding keys_distinct_def by metis
  qed
  have tab: "\<exists>bs. arrays s' (buckets c) = Some bs \<and>
       table_ok T (nib_of s') (entry s') bs (bucket_count c) as"
  proof -
    from dd(7) obtain bs where bs: "arrays s (buckets c) = Some bs"
      "table_ok T (nib_of s) (entry s) bs (bucket_count c) as" by blast
    have "\<And>x. bucket_of T (entry s') (bucket_count c) x = bucket_of T (entry s) (bucket_count c) x"
      using d by (simp add: bucket_of_def v')
    then have "table_ok T (nib_of s') (entry s') bs (bucket_count c) as"
      using bs(2) by (simp add: table_ok_def v')
    then show ?thesis using bs(1) by (simp add: v')
  qed
  have "lhm_struct T s' c as"
    unfolding lhm_struct_def
    using dd(1,2,3,5,6,8,9) kd tab by (simp add: v')
  then have inv: "lhm_inv T s' c as" using S by (simp add: lhm_inv_def)
  have nd: "\<And>x. x \<notin> set as \<Longrightarrow> nodes s' x = nodes s x" using v'(8) a by metis
  have ch: "changes_only this s c as s' c as"
    unfolding changes_only_def owns_def using nd by (auto simp: v'(5,6,7))
  show ?thesis using that[OF w inv v'(4) v'(6) ch] .
qed

lemma subscript_present:
  assumes "hash_ok T" "lhm_struct T s c as" "maps s this = Some c" "lookup T s as k = Some a"
  shows "subscript T this k s = Some (a, s)"
proof -
  from lookup_Some_entry[OF assms(4)] obtain d where "entry s a = Some d" by blast
  then obtain n where "nodes s a = Some n" "data n = Some d" by (auto simp: view_Some)
  then show ?thesis using lookup_spec[OF assms(1-3), of k] assms(4) by (simp add: subscript_def)
qed

lemma subscript_absent:
  assumes H: "hash_ok T" and I: "lhm_inv T s c as" and M: "maps s this = Some c"
    and abs: "lookup T s as k = None"
  obtains s' c' n where
    "subscript T this k s = Some (n, s')"
    "insert_lhm T this (k, default_T T) s =
       Some ((\<lparr>node_it = Some n, map_it = Some this\<rparr>, True), s')"
proof -
  have S: "lhm_struct T s c as" using I by (simp add: lhm_inv_def)
  from insert_absent[OF H I M abs, of "default_T T"] obtain s' c' n where r:
    "insert_lhm T this (k, default_T T) s =
       Some ((\<lparr>node_it = Some n, map_it = Some this\<rparr>, True), s')"
    "entry s' = (entry s)(n \<mapsto> (k, default_T T))"
    by metis
  from r(2) obtain nn where "nodes s' n = Some nn" "data nn = Some (k, default_T T)"
    by (metis fun_upd_same view_Some(4))
  then have "subscript T this k s = Some (n, s')"
    using lookup_spec[OF H S M, of k] abs r(1) by (simp add: subscript_def)
  then show ?thesis using that r(1) by blast
qed

lemma iter_inc_spec:
  assumes S: "lhm_struct T s c as" and M: "maps s this = Some c" and i: "i \<le> length as"
  shows "iter_inc s (cursor this c as i) =
     Some (if i = length as then Inl invalid_iterator else Inr (cursor this c as (Suc i)))"
proof (cases "i = length as")
  case True
  then show ?thesis using M by (simp add: iter_inc_def cursor_def)
next
  case False
  then have il: "i < length as" using i by simp
  note d = structD[OF S]
  define xs ys where "xs = take i as" and "ys = drop (Suc i) as"
  have as: "as = xs @ as ! i # ys" unfolding xs_def ys_def using il by (simp add: id_take_nth_drop)
  have ne: "as ! i \<noteq> tail c" using d(1) il by (metis as distinct.simps(2) distinct_append in_set_conv_decomp not_distinct_conv_prefix append_Cons append_eq_appendI append.assoc)
  have "next_of s (as ! i) = Some (Some (hd (ys @ [tail c])))"
    by (rule dll_remove(2)[OF _ _ refl refl, of _ "prev_of s" "head c" xs _ _ "tail c"])
      (use d(1,2) as in auto)
  moreover have "hd (ys @ [tail c]) = (as @ [tail c]) ! Suc i"
    unfolding ys_def using il by (simp add: hd_append hd_drop_conv_nth nth_append)
  ultimately obtain n where n: "nodes s (as ! i) = Some n" "next n = Some ((as @ [tail c]) ! Suc i)"
    by (auto simp: view_Some)
  show ?thesis
    using M False il ne n by (simp add: iter_inc_def cursor_def load_def nth_append)
qed

lemma successively_nth:
  "successively P xs \<Longrightarrow> Suc j < length xs \<Longrightarrow> P (xs ! j) (xs ! Suc j)"
proof (induction xs arbitrary: j)
  case Nil
  then show ?case by simp
next
  case (Cons x xs)
  show ?case
  proof (cases j)
    case 0
    then show ?thesis using Cons.prems by (cases xs) auto
  next
    case (Suc k)
    have "successively P xs" using Cons.prems(1) by (auto simp: successively_Cons)
    then have "P (xs ! k) (xs ! Suc k)" using Cons.IH Cons.prems(2) Suc by simp
    then show ?thesis using Suc by simp
  qed
qed

lemma iter_dec_spec:
  assumes S: "lhm_struct T s c as" and M: "maps s this = Some c" and i: "i \<le> length as"
  shows "iter_dec s (cursor this c as i) =
     Some (if i = 0 then Inl invalid_iterator else Inr (cursor this c as (i - 1)))"
proof -
  note d = structD[OF S]
  let ?P = "as @ [tail c]"
  from dll_first(1)[OF d(2)] obtain hn where hn: "nodes s (head c) = Some hn"
    "next hn = Some (hd ?P)"
    by (auto simp: view_Some)
  have hd0: "hd ?P = ?P ! 0" by (simp add: hd_conv_nth)
  show ?thesis
  proof (cases i)
    case 0
    then show ?thesis using M hn hd0 by (simp add: iter_dec_def cursor_def)
  next
    case (Suc k)
    have suc: "successively (Link (next_of s) (prev_of s)) ?P"
      using d(2) by (auto simp: dll_def successively_Cons)
    have "Suc k < length ?P" using i Suc by simp
    from successively_nth[OF suc this]
    have "prev_of s (?P ! Suc k) = Some (Some (?P ! k))" by (simp add: Link_def)
    then obtain n where n: "nodes s (?P ! Suc k) = Some n" "prev n = Some (?P ! k)"
      by (auto simp: view_Some)
    have "distinct ?P" using d(1) by simp
    then have "?P ! Suc k \<noteq> ?P ! 0"
      using \<open>Suc k < length ?P\<close> by (simp add: nth_eq_iff_index_eq)
    then show ?thesis
      using M hn n Suc hd0 by (simp add: iter_dec_def cursor_def load_def)
  qed
qed




lemma at_raises_iff:
  "at T s this k = Some (Inl e) \<Longrightarrow> e = index_out_of_bound"
  by (auto simp: at_def bind_eq_Some_conv split: option.splits)

lemma inv_struct: "lhm_inv T s c as \<Longrightarrow> lhm_struct T s c as"
  by (simp add: lhm_inv_def)

lemma erase_inv:
  assumes H: "hash_ok T" and I: "lhm_inv T s c as" and M: "maps s this = Some c"
    and a: "a \<in> set as"
  obtains s' c' xs ys where "as = xs @ a # ys"
    "erase T this \<lparr>node_it = Some a, map_it = Some this\<rparr> s = Some (Inr s')"
    "maps s' this = Some c'" "lhm_inv T s' c' (xs @ ys)"
    "entry s' = (entry s)(a := None)"
    "c' = c\<lparr>element_count := length (xs @ ys)\<rparr>"
    "changes_only this s c as s' c' (xs @ ys)"
proof -
  from a obtain xs ys where as: "as = xs @ a # ys" by (meson split_list)
  have S: "lhm_struct T s c (xs @ a # ys)" using I as by (simp add: lhm_inv_def)
  from erase_spec[OF H S M] obtain s' c' where r:
    "erase T this \<lparr>node_it = Some a, map_it = Some this\<rparr> s = Some (Inr s')"
    "maps s' this = Some c'" "lhm_struct T s' c' (xs @ ys)"
    "entry s' = (entry s)(a := None)"
    "c' = c\<lparr>element_count := length (xs @ ys)\<rparr>"
    "changes_only this s c (xs @ a # ys) s' c' (xs @ ys)"
    by blast
  have "lhm_inv T s' c' (xs @ ys)" using r(3,5) I as by (simp add: lhm_inv_def)
  then show ?thesis using that[OF as r(1,2) _ r(4,5)] r(6) as by simp
qed

lemma step_ok_refl:
  "maps s this = Some c \<Longrightarrow> lhm_inv T s c as \<Longrightarrow> step_ok T this s c as s"
  unfolding step_ok_def using changes_only_refl by fastforce

lemma run_call_spec:
  assumes H: "hash_ok T" and I: "lhm_inv T s c as" and M: "maps s this = Some c"
  shows "\<exists>r. run_call T this cl s = Some r \<and> (\<forall>s'. r = Inr s' \<longrightarrow> step_ok T this s c as s')"
proof -
  note S = inv_struct[OF I]
  note refl = step_ok_refl[OF M I]
  have ins: "\<exists>it b s'. insert_lhm T this (k, v) s = Some ((it, b), s') \<and> step_ok T this s c as s'"
    for k v
  proof (cases "lookup T s as k")
    case None
    from insert_absent[OF H I M None, of v] obtain s' c' n where r:
      "insert_lhm T this (k, v) s = Some ((\<lparr>node_it = Some n, map_it = Some this\<rparr>, True), s')"
      "maps s' this = Some c'" "lhm_inv T s' c' (as @ [n])"
      "head c' = head c" "tail c' = tail c"
      "bucket_count c' =
         (if 3 * bucket_count c < 4 * (length as + 1) then bucket_count c * 2 else bucket_count c)"
      "changes_only this s c as s' c' (as @ [n])"
      by metis
    have "bucket_count c \<le> bucket_count c'" using r(6) by simp
    then have "step_ok T this s c as s'" unfolding step_ok_def using r by blast
    then show ?thesis using r(1) by blast
  next
    case (Some a)
    then show ?thesis using insert_present[OF H S M Some, of v] refl by blast
  qed
  have sub: "\<exists>a s'. subscript T this k s = Some (a, s') \<and> step_ok T this s c as s'" for k
  proof (cases "lookup T s as k")
    case None
    from subscript_absent[OF H I M None] obtain s' n where r:
      "subscript T this k s = Some (n, s')"
      "insert_lhm T this (k, default_T T) s =
         Some ((\<lparr>node_it = Some n, map_it = Some this\<rparr>, True), s')"
      by metis
    then show ?thesis using ins[of k "default_T T"] by auto
  next
    case (Some a)
    then show ?thesis using subscript_present[OF H S M Some] refl by blast
  qed
  show ?thesis
  proof (cases cl)
    case (Insert k v)
    then show ?thesis using ins[of k v] by auto
  next
    case (Erase k)
    show ?thesis
    proof (cases "lookup T s as k")
      case None
      then show ?thesis using Erase find_spec[OF H S M, of k] M by (simp add: erase_def)
    next
      case (Some a)
      then have "a \<in> set as" using lookup_SomeD by fastforce
      from erase_inv[OF H I M this] obtain s' c' xs ys where r: "as = xs @ a # ys"
        "erase T this \<lparr>node_it = Some a, map_it = Some this\<rparr> s = Some (Inr s')"
        "maps s' this = Some c'" "lhm_inv T s' c' (xs @ ys)"
        "c' = c\<lparr>element_count := length (xs @ ys)\<rparr>"
        "changes_only this s c as s' c' (xs @ ys)"
        by metis
      have "step_ok T this s c as s'" unfolding step_ok_def using r(3-6) by auto
      then show ?thesis using Erase Some find_spec[OF H S M, of k] r(2) by simp
    qed
  next
    case Clear
    from clear_spec[OF S M] obtain s' c' where r: "clear this s = Some s'"
      "maps s' this = Some c'" "lhm_inv T s' c' []"
      "c' = c\<lparr>element_count := 0\<rparr>" "changes_only this s c as s' c' []"
      by blast
    have "step_ok T this s c as s'" unfolding step_ok_def using r(2-5) by auto
    then show ?thesis using Clear r(1) by simp
  next
    case (At k)
    then show ?thesis using at_spec[OF H S M, of k] refl by (simp split: option.splits)
  next
    case (Find k)
    then show ?thesis using find_spec[OF H S M, of k] refl by simp
  next
    case (Count k)
    then show ?thesis using count_spec[OF H S M, of k] refl by simp
  next
    case (Subscript k)
    then show ?thesis using sub[of k] by auto
  next
    case (Assign_subscript k v)
    show ?thesis
    proof (cases "lookup T s as k")
      case None
      from insert_absent[OF H I M None, of "default_T T"] obtain s1 c1 n where r:
        "insert_lhm T this (k, default_T T) s =
           Some ((\<lparr>node_it = Some n, map_it = Some this\<rparr>, True), s1)"
        "maps s1 this = Some c1" "lhm_inv T s1 c1 (as @ [n])"
        "entry s1 = (entry s)(n \<mapsto> (k, default_T T))"
        "head c1 = head c" "tail c1 = tail c"
        "bucket_count c1 =
           (if 3 * bucket_count c < 4 * (length as + 1) then bucket_count c * 2 else bucket_count c)"
        "changes_only this s c as s1 c1 (as @ [n])"
        by metis
      from subscript_absent[OF H I M None] obtain s1' n' where r':
        "subscript T this k s = Some (n', s1')"
        "insert_lhm T this (k, default_T T) s =
           Some ((\<lparr>node_it = Some n', map_it = Some this\<rparr>, True), s1')"
        by metis
      have eq: "n' = n" "s1' = s1" using r(1) r'(2) by simp_all
      have "entry s1 n = Some (k, default_T T)" using r(4) by simp
      from write_ref_spec[OF r(3) _ this, of v this] obtain s2 where w:
        "write_ref n v s1 = Some s2" "lhm_inv T s2 c1 (as @ [n])" "maps s2 = maps s1"
        "changes_only this s1 c1 (as @ [n]) s2 c1 (as @ [n])"
        by auto
      have "bucket_count c \<le> bucket_count c1" using r(7) by simp
      then have "step_ok T this s c as s2"
        unfolding step_ok_def using w r(2,5,6) changes_only_trans[OF r(8) w(4)] by auto
      then show ?thesis using Assign_subscript r'(1) eq w(1) by simp
    next
      case (Some a)
      from lookup_Some_entry[OF Some] obtain d where d: "a \<in> set as" "entry s a = Some d"
        by blast
      from write_ref_spec[OF I d, of v this] obtain s2 where w:
        "write_ref a v s = Some s2" "lhm_inv T s2 c as" "maps s2 = maps s"
        "changes_only this s c as s2 c as"
        by auto
      have "step_ok T this s c as s2" unfolding step_ok_def using w M by auto
      then show ?thesis
        using Assign_subscript subscript_present[OF H S M Some] w(1) by simp
    qed
  next
    case (Assign_at k v)
    show ?thesis
    proof (cases "lookup T s as k")
      case None
      then show ?thesis using Assign_at at_spec[OF H S M, of k] by simp
    next
      case (Some a)
      from lookup_Some_entry[OF Some] obtain d where d: "a \<in> set as" "entry s a = Some d"
        by blast
      from write_ref_spec[OF I d, of v this] obtain s2 where w:
        "write_ref a v s = Some s2" "lhm_inv T s2 c as" "maps s2 = maps s"
        "changes_only this s c as s2 c as"
        by auto
      have "step_ok T this s c as s2" unfolding step_ok_def using w M by auto
      then show ?thesis using Assign_at at_spec[OF H S M, of k] Some w(1) by simp
    qed
  next
    case Self_assign
    then show ?thesis using refl by (simp add: assign_def)
  qed
qed

lemma lookup_present_contents:
  assumes "\<forall>a\<in>set as. entry s a \<noteq> None"
  shows "lookup T s as k \<noteq> None \<longleftrightarrow> list_ex (\<lambda>k'. equal_func T k' k) (map fst (contents s as))"
  using lookup_None_contents[OF assms, of T k] by (auto simp: list_ex_iff)

lemma lookup_absent_contents:
  assumes "\<forall>a\<in>set as. entry s a \<noteq> None"
  shows "lookup T s as k = None \<longleftrightarrow> list_all (\<lambda>k'. \<not> equal_func T k' k) (map fst (contents s as))"
  using lookup_None_contents[OF assms, of T k] by (auto simp: list_all_iff)

lemma contents_snoc:
  assumes "entry s' = (entry s)(n \<mapsto> kv)" "n \<notin> set as"
  shows "contents s' (as @ [n]) = contents s as @ [kv]"
  using assms by (simp add: contents_def)

lemma inv_fresh:
  assumes "lhm_inv T s c as" "brk s \<le> n"
  shows "n \<notin> set as"
proof
  assume "n \<in> set as"
  then have "n < brk s" using structD(8)[OF inv_struct[OF assms(1)]] by simp
  then show False using assms(2) by simp
qed

lemma script_spec:
  assumes H: "hash_ok T"
    and "lhm_inv T s c as" "maps s this = Some c" "script_ok T (map fst (contents s as)) cs"
  shows "\<exists>s' c' as'. run_calls T this cs s = Some (None, s') \<and> maps s' this = Some c' \<and>
     lhm_inv T s' c' as' \<and> contents s' as' = contents s as @ inserted cs"
  using assms(2-)
proof (induction cs arbitrary: s c as)
  case Nil
  then show ?case by auto
next
  case (Cons cl cs)
  note I = Cons.prems(1) and M = Cons.prems(2)
  note S = inv_struct[OF I]
  note ent = structD(3)[OF S]
  have same: "\<exists>s' c' as'. run_calls T this (cl # cs) s = Some (None, s') \<and>
      maps s' this = Some c' \<and> lhm_inv T s' c' as' \<and>
      contents s' as' = contents s as @ inserted (cl # cs)"
    if "run_call T this cl s = Some (Inr s)" "script_ok T (map fst (contents s as)) cs"
      "inserted (cl # cs) = inserted cs"
    using Cons.IH[OF I M that(2)] that(1,3) by simp
  show ?case
  proof (cases cl)
    case (Insert k v)
    have ok: "list_all (\<lambda>k'. \<not> equal_func T k' k) (map fst (contents s as))"
      "script_ok T (map fst (contents s as) @ [k]) cs"
      using Cons.prems(3) Insert by simp_all
    have abs: "lookup T s as k = None" using ok(1) lookup_absent_contents[OF ent] by blast
    from insert_absent[OF H I M abs, of v] obtain s1 c1 n where r:
      "insert_lhm T this (k, v) s = Some ((\<lparr>node_it = Some n, map_it = Some this\<rparr>, True), s1)"
      "maps s1 this = Some c1" "lhm_inv T s1 c1 (as @ [n])"
      "entry s1 = (entry s)(n \<mapsto> (k, v))" "brk s \<le> n"
      by metis
    have c1: "contents s1 (as @ [n]) = contents s as @ [(k, v)]"
      by (rule contents_snoc[OF r(4) inv_fresh[OF I r(5)]])
    have "script_ok T (map fst (contents s1 (as @ [n]))) cs" using ok(2) c1 by simp
    from Cons.IH[OF r(3,2) this] obtain s' c' as' where
      "run_calls T this cs s1 = Some (None, s')" "maps s' this = Some c'"
      "lhm_inv T s' c' as'" "contents s' as' = contents s1 (as @ [n]) @ inserted cs"
      by blast
    then show ?thesis using Insert r(1) c1 by auto
  next
    case (At k)
    then have ok: "list_ex (\<lambda>k'. equal_func T k' k) (map fst (contents s as))"
      "script_ok T (map fst (contents s as)) cs"
      using Cons.prems(3) by simp_all
    then obtain a where "lookup T s as k = Some a"
      using lookup_present_contents[OF ent, of T k] by auto
    then have "run_call T this cl s = Some (Inr s)"
      using At at_spec[OF H S M, of k] by simp
    then show ?thesis using same ok(2) At by simp
  next
    case (Subscript k)
    then have ok: "list_ex (\<lambda>k'. equal_func T k' k) (map fst (contents s as))"
      "script_ok T (map fst (contents s as)) cs"
      using Cons.prems(3) by simp_all
    then obtain a where "lookup T s as k = Some a"
      using lookup_present_contents[OF ent, of T k] by auto
    then have "run_call T this cl s = Some (Inr s)"
      using Subscript subscript_present[OF H S M] by simp
    then show ?thesis using same ok(2) Subscript by simp
  next
    case (Find k)
    then have "run_call T this cl s = Some (Inr s)" using find_spec[OF H S M, of k] by simp
    then show ?thesis using same Cons.prems(3) Find by simp
  next
    case (Count k)
    then have "run_call T this cl s = Some (Inr s)" using count_spec[OF H S M, of k] by simp
    then show ?thesis using same Cons.prems(3) Count by simp
  qed (use Cons.prems(3) in simp_all)
qed

lemma run_calls_spec:
  assumes H: "hash_ok T" and "lhm_inv T s c as" "maps s this = Some c"
  shows "\<exists>e s'. run_calls T this cs s = Some (e, s') \<and> step_ok T this s c as s'"
  using assms(2-)
proof (induction cs arbitrary: s c as)
  case Nil
  then show ?case using step_ok_refl by fastforce
next
  case (Cons cl cs)
  from run_call_spec[OF H Cons.prems, of cl] obtain r where r: "run_call T this cl s = Some r"
    "\<forall>s'. r = Inr s' \<longrightarrow> step_ok T this s c as s'" by blast
  show ?case
  proof (cases r)
    case (Inl e)
    then show ?thesis using r(1) step_ok_refl[OF Cons.prems(2,1)] by auto
  next
    case (Inr s1)
    then have "step_ok T this s c as s1" using r(2) by simp
    then obtain c1 as1 where s1: "maps s1 this = Some c1" "lhm_inv T s1 c1 as1"
      "changes_only this s c as s1 c1 as1" "bucket_count c \<le> bucket_count c1"
      "head c1 = head c" "tail c1 = tail c"
      unfolding step_ok_def by blast
    from Cons.IH[OF s1(2,1)] obtain e s' where r': "run_calls T this cs s1 = Some (e, s')"
      "step_ok T this s1 c1 as1 s'" by blast
    from r'(2) obtain c' as' where s': "maps s' this = Some c'" "lhm_inv T s' c' as'"
      "changes_only this s1 c1 as1 s' c' as'" "bucket_count c1 \<le> bucket_count c'"
      "head c' = head c1" "tail c' = tail c1"
      unfolding step_ok_def by blast
    have "step_ok T this s c as s'"
      unfolding step_ok_def
      using s'(1,2,4-6) s1(4-6) changes_only_trans[OF s1(3) s'(3)] by auto
    then show ?thesis using r(1) Inr r'(1) by auto
  qed
qed

lemma hash_ok_nat: "hash_ok nat_traits"
  by (simp add: hash_ok_def nat_traits_def)

lemma ctor_spec:
  obtains s1 c1 where "linked_hashmap_ctor this s = Some s1" "maps s1 this = Some c1"
    "lhm_inv T s1 c1 []" "bucket_count c1 = INITIAL_BUCKET_COUNT"
    "\<forall>m. m \<noteq> this \<longrightarrow> maps s1 m = maps s m"
    "\<forall>a<brk s. nodes s1 a = nodes s a \<and> arrays s1 a = arrays s a"
    "brk s \<le> brk s1" "\<forall>a\<in>owns c1 []. brk s \<le> a" "brk s \<le> buckets c1"
proof -
  let ?c = "\<lparr>head = brk s, tail = Suc (brk s), buckets = Suc (Suc (brk s)),
            bucket_count = INITIAL_BUCKET_COUNT, element_count = 0\<rparr>"
  have "lhm_inv T (fresh_map this INITIAL_BUCKET_COUNT s) ?c []"
    by (rule fresh_map_inv) (simp add: INITIAL_BUCKET_COUNT_def)
  then show ?thesis
    using that[of "fresh_map this INITIAL_BUCKET_COUNT s" ?c] ctor_eq[of this s]
    by (simp add: fresh_map_frame owns_def)
qed

lemma example_state:
  assumes "script_ok nat_traits [] cs"
  obtains s1 s c as where "linked_hashmap_ctor 0 empty_heap = Some s1"
    "run_calls nat_traits 0 cs s1 = Some (None, s)" "maps s 0 = Some c"
    "lhm_inv nat_traits s c as" "contents s as = inserted cs"
proof -
  from ctor_spec[of 0 empty_heap nat_traits] obtain s1 c1 where c:
    "linked_hashmap_ctor 0 empty_heap = Some s1" "maps s1 0 = Some c1"
    "lhm_inv nat_traits s1 c1 []"
    by metis
  have "script_ok nat_traits (map fst (contents s1 [])) cs" using assms by (simp add: contents_def)
  from script_spec[OF hash_ok_nat c(3,2) this] obtain s c as where
    "run_calls nat_traits 0 cs s1 = Some (None, s)" "maps s 0 = Some c"
    "lhm_inv nat_traits s c as" "contents s as = contents s1 [] @ inserted cs"
    by blast
  then show ?thesis using that c(1) by (simp add: contents_def)
qed

lemma size_spec: "maps s this = Some c \<Longrightarrow> lhm_inv T s c as \<Longrightarrow> size_lhm s this = Some (length as)"
  using structD(5)[OF inv_struct] by (fastforce simp: size_lhm_def)

lemma length_contents: "length (contents s as) = length as"
  by (simp add: contents_def)

lemma lookup_holds:
  assumes "lhm_struct T s c as" "a \<in> set as" "holds_key T s k a" "hash_ok T"
  shows "lookup T s as k = Some a"
proof -
  have "lookup T s as k \<noteq> None" using assms(2,3) by (auto simp: lookup_None_iff)
  then obtain b where b: "lookup T s as k = Some b" by blast
  from lookup_SomeD[OF b] have hb: "b \<in> set as" "holds_key T s k b" by blast+
  from assms(3) hb(2) obtain d d' where d: "entry s a = Some d" "equal_func T (fst d) k"
    "entry s b = Some d'" "equal_func T (fst d') k"
    by (auto simp: holds_key_def split: option.splits)
  have "equal_func T (fst d) (fst d')"
    using hash_ok_trans[OF assms(4) d(2) hash_ok_sym[OF assms(4) d(4)]] .
  then have "a = b"
    using structD(4)[OF assms(1)] assms(2) hb(1) d(1,3) unfolding keys_distinct_def by blast
  then show ?thesis using b by simp
qed

lemma contents_remove:
  assumes H: "hash_ok T" and S: "lhm_struct T s c (xs @ a # ys)" and h: "holds_key T s k a"
  shows "filter (\<lambda>kv. \<not> equal_func T (fst kv) k) (contents s (xs @ a # ys)) = contents s (xs @ ys)"
proof -
  note d = structD[OF S]
  from h obtain da where da: "entry s a = Some da" "equal_func T (fst da) k"
    by (auto simp: holds_key_def split: option.splits)
  have other: "\<not> equal_func T (fst (the (entry s x))) k" if x: "x \<in> set (xs @ ys)" for x
  proof
    assume e: "equal_func T (fst (the (entry s x))) k"
    have xin: "x \<in> set (xs @ a # ys)" using x by auto
    then obtain dx where dx: "entry s x = Some dx" using d(3) by blast
    have "equal_func T (fst dx) (fst da)"
      using hash_ok_trans[OF H _ hash_ok_sym[OF H da(2)]] e dx by simp
    then have "x = a" using d(4) xin dx da(1) unfolding keys_distinct_def by (metis in_set_conv_decomp)
    then show False using x d(1) by auto
  qed
  have f: "filter (\<lambda>x. \<not> equal_func T (fst (the (entry s x))) k) (xs @ a # ys) = xs @ ys"
    using other da by (auto simp: filter_id_conv)
  have "filter (\<lambda>kv. \<not> equal_func T (fst kv) k) (contents s (xs @ a # ys)) =
      map (\<lambda>a. the (entry s a)) (filter (\<lambda>x. \<not> equal_func T (fst (the (entry s x))) k) (xs @ a # ys))"
    unfolding contents_def filter_map comp_def ..
  then show ?thesis unfolding f by (simp add: contents_def)
qed

lemma iterate_inv:
  "maps s this = Some c \<Longrightarrow> lhm_inv T s c as \<Longrightarrow> iterate s this = Some (contents s as)"
  using iterate_spec[OF inv_struct] by blast

lemma present_iff:
  assumes "lhm_inv T s c as"
  shows "lookup T s as k = None \<longleftrightarrow> list_all (\<lambda>kv. \<not> equal_func T (fst kv) k) (contents s as)"
  using lookup_None_contents[OF structD(3)[OF inv_struct[OF assms]], of T k]
  by (auto simp: list_all_iff)

lemma count_contents:
  assumes "hash_ok T" "lhm_inv T s c as" "maps s this = Some c"
  shows "count T s this k =
     Some (if list_all (\<lambda>kv. \<not> equal_func T (fst kv) k) (contents s as) then 0 else 1)"
  using count_spec[OF assms(1) inv_struct[OF assms(2)] assms(3), of k] present_iff[OF assms(2), of k]
  by simp

lemma inv_counts:
  assumes "lhm_inv T s c as"
  shows "element_count c = length as" "4 * element_count c \<le> 3 * bucket_count c"
  using assms structD(5)[OF inv_struct[OF assms]] by (simp_all add: lhm_inv_def)

lemma script_spec_full:
  assumes H: "hash_ok T"
    and "lhm_inv T s c as" "maps s this = Some c" "script_ok T (map fst (contents s as)) cs"
  shows "\<exists>s' c' as'. run_calls T this cs s = Some (None, s') \<and> maps s' this = Some c' \<and>
     lhm_inv T s' c' as' \<and> contents s' as' = contents s as @ inserted cs \<and>
     bucket_count c' = buckets_after (bucket_count c) (length as) cs"
  using assms(2-)
proof (induction cs arbitrary: s c as)
  case Nil
  then show ?case by auto
next
  case (Cons cl cs)
  note I = Cons.prems(1) and M = Cons.prems(2)
  note S = inv_struct[OF I]
  note ent = structD(3)[OF S]
  have same: "\<exists>s' c' as'. run_calls T this (cl # cs) s = Some (None, s') \<and>
      maps s' this = Some c' \<and> lhm_inv T s' c' as' \<and>
      contents s' as' = contents s as @ inserted (cl # cs) \<and>
      bucket_count c' = buckets_after (bucket_count c) (length as) (cl # cs)"
    if "run_call T this cl s = Some (Inr s)" "script_ok T (map fst (contents s as)) cs"
      "inserted (cl # cs) = inserted cs"
      "\<And>bc n. buckets_after bc n (cl # cs) = buckets_after bc n cs"
    using Cons.IH[OF I M that(2)] that(1,3,4) by simp
  show ?case
  proof (cases cl)
    case (Insert k v)
    have ok: "list_all (\<lambda>k'. \<not> equal_func T k' k) (map fst (contents s as))"
      "script_ok T (map fst (contents s as) @ [k]) cs"
      using Cons.prems(3) Insert by simp_all
    have abs: "lookup T s as k = None" using ok(1) lookup_absent_contents[OF ent] by blast
    from insert_absent[OF H I M abs, of v] obtain s1 c1 n where r:
      "insert_lhm T this (k, v) s = Some ((\<lparr>node_it = Some n, map_it = Some this\<rparr>, True), s1)"
      "maps s1 this = Some c1" "lhm_inv T s1 c1 (as @ [n])"
      "entry s1 = (entry s)(n \<mapsto> (k, v))" "brk s \<le> n"
      "bucket_count c1 =
         (if 3 * bucket_count c < 4 * (length as + 1) then bucket_count c * 2 else bucket_count c)"
      by metis
    have c1: "contents s1 (as @ [n]) = contents s as @ [(k, v)]"
      by (rule contents_snoc[OF r(4) inv_fresh[OF I r(5)]])
    have "script_ok T (map fst (contents s1 (as @ [n]))) cs" using ok(2) c1 by simp
    from Cons.IH[OF r(3,2) this] obtain s' c' as' where
      "run_calls T this cs s1 = Some (None, s')" "maps s' this = Some c'"
      "lhm_inv T s' c' as'" "contents s' as' = contents s1 (as @ [n]) @ inserted cs"
      "bucket_count c' = buckets_after (bucket_count c1) (length (as @ [n])) cs"
      by blast
    then show ?thesis using Insert r(1,6) c1 by auto
  next
    case (At k)
    then have ok: "list_ex (\<lambda>k'. equal_func T k' k) (map fst (contents s as))"
      "script_ok T (map fst (contents s as)) cs"
      using Cons.prems(3) by simp_all
    then obtain a where "lookup T s as k = Some a"
      using lookup_present_contents[OF ent, of T k] by auto
    then have "run_call T this cl s = Some (Inr s)"
      using At at_spec[OF H S M, of k] by simp
    then show ?thesis using same ok(2) At by simp
  next
    case (Subscript k)
    then have ok: "list_ex (\<lambda>k'. equal_func T k' k) (map fst (contents s as))"
      "script_ok T (map fst (contents s as)) cs"
      using Cons.prems(3) by simp_all
    then obtain a where "lookup T s as k = Some a"
      using lookup_present_contents[OF ent, of T k] by auto
    then have "run_call T this cl s = Some (Inr s)"
      using Subscript subscript_present[OF H S M] by simp
    then show ?thesis using same ok(2) Subscript by simp
  next
    case (Find k)
    then have "run_call T this cl s = Some (Inr s)" using find_spec[OF H S M, of k] by simp
    then show ?thesis using same Cons.prems(3) Find by simp
  next
    case (Count k)
    then have "run_call T this cl s = Some (Inr s)" using count_spec[OF H S M, of k] by simp
    then show ?thesis using same Cons.prems(3) Count by simp
  qed (use Cons.prems(3) in simp_all)
qed

lemma example_state_full:
  assumes "script_ok nat_traits [] cs"
  obtains s1 s c as where "linked_hashmap_ctor 0 empty_heap = Some s1"
    "run_calls nat_traits 0 cs s1 = Some (None, s)" "maps s 0 = Some c"
    "lhm_inv nat_traits s c as" "contents s as = inserted cs"
    "bucket_count c = buckets_after INITIAL_BUCKET_COUNT 0 cs"
proof -
  from ctor_spec[of 0 empty_heap nat_traits] obtain s1 c1 where c:
    "linked_hashmap_ctor 0 empty_heap = Some s1" "maps s1 0 = Some c1"
    "lhm_inv nat_traits s1 c1 []" "bucket_count c1 = INITIAL_BUCKET_COUNT"
    by metis
  have "script_ok nat_traits (map fst (contents s1 [])) cs" using assms by (simp add: contents_def)
  from script_spec_full[OF hash_ok_nat c(3,2) this] obtain s c as where
    "run_calls nat_traits 0 cs s1 = Some (None, s)" "maps s 0 = Some c"
    "lhm_inv nat_traits s c as" "contents s as = contents s1 [] @ inserted cs"
    "bucket_count c = buckets_after (bucket_count c1) (length ([]::addr list)) cs"
    by blast
  then show ?thesis using that c(1,4) by (simp add: contents_def)
qed

lemma lookup_find:
  assumes "\<forall>a\<in>set as. entry s a \<noteq> None"
  shows "find (\<lambda>kv. equal_func T (fst kv) k) (contents s as) =
     map_option (\<lambda>a. the (entry s a)) (lookup T s as k)"
  using assms
  by (induction as) (auto simp: contents_def lookup_def holds_key_def)

lemma deref_entry:
  "entry s a = Some kv \<Longrightarrow> iter_deref s \<lparr>node_it = Some a, map_it = m\<rparr> = Some kv"
  by (auto simp: iter_deref_def load_def view_Some)

lemma erase_present:
  assumes H: "hash_ok T" and I: "lhm_inv T s c as" and M: "maps s this = Some c"
    and L: "lookup T s as k = Some a"
  obtains s1 c1 as1 where
    "erase T this \<lparr>node_it = Some a, map_it = Some this\<rparr> s = Some (Inr s1)"
    "maps s1 this = Some c1" "lhm_inv T s1 c1 as1"
    "contents s1 as1 = filter (\<lambda>kv. \<not> equal_func T (fst kv) k) (contents s as)"
    "lookup T s1 as1 k = None" "Suc (length as1) = length as"
    "bucket_count c1 = bucket_count c" "changes_only this s c as s1 c1 as1"
proof -
  from lookup_SomeD[OF L] have a: "a \<in> set as" "holds_key T s k a" by blast+
  from erase_inv[OF H I M a(1)] obtain s1 c1 xs ys where r: "as = xs @ a # ys"
    "erase T this \<lparr>node_it = Some a, map_it = Some this\<rparr> s = Some (Inr s1)"
    "maps s1 this = Some c1" "lhm_inv T s1 c1 (xs @ ys)"
    "entry s1 = (entry s)(a := None)"
    "c1 = c\<lparr>element_count := length (xs @ ys)\<rparr>"
    "changes_only this s c as s1 c1 (xs @ ys)"
    by metis
  note S = inv_struct[OF I]
  have "distinct as" using structD(1)[OF S] by simp
  then have na: "a \<notin> set (xs @ ys)" using r(1) by auto
  have c1: "contents s1 (xs @ ys) = contents s (xs @ ys)"
    unfolding contents_def using na r(5) by (intro map_cong) auto
  have c2: "contents s (xs @ ys) = filter (\<lambda>kv. \<not> equal_func T (fst kv) k) (contents s as)"
    using contents_remove[OF H S[unfolded r(1)] a(2)] r(1) by simp
  have co: "contents s1 (xs @ ys) = filter (\<lambda>kv. \<not> equal_func T (fst kv) k) (contents s as)"
    using c1 c2 by simp
  have "\<forall>kv\<in>set (contents s1 (xs @ ys)). \<not> equal_func T (fst kv) k" unfolding co by simp
  then have ln: "lookup T s1 (xs @ ys) k = None"
    using lookup_None_contents[OF structD(3)[OF inv_struct[OF r(4)]], of T k] by blast
  have len: "Suc (length (xs @ ys)) = length as" using r(1) by simp
  have bc: "bucket_count c1 = bucket_count c" using r(6) by simp
  show ?thesis by (rule that[OF r(2,3,4) co ln len bc r(7)])
qed

lemma insert_last:
  assumes H: "hash_ok T" and I: "lhm_inv T s c as" and M: "maps s this = Some c"
    and L: "lookup T s as k = None"
  obtains n s' c' e where
    "insert_lhm T this (k, v) s = Some ((\<lparr>node_it = Some n, map_it = Some this\<rparr>, True), s')"
    "maps s' this = Some c'" "lhm_inv T s' c' (as @ [n])"
    "contents s' (as @ [n]) = contents s as @ [(k, v)]"
    "end_it s' this = Some e"
    "iter_inc s' \<lparr>node_it = Some n, map_it = Some this\<rparr> = Some (Inr e)"
    "iter_dec s' e = Some (Inr \<lparr>node_it = Some n, map_it = Some this\<rparr>)"
    "iter_deref s' \<lparr>node_it = Some n, map_it = Some this\<rparr> = Some (k, v)"
    "at T s' this k = Some (Inr n)" "read_ref s' n = Some v" "count T s' this k = Some 1"
proof -
  from insert_absent[OF H I M L, of v] obtain s' c' n where r:
    "insert_lhm T this (k, v) s = Some ((\<lparr>node_it = Some n, map_it = Some this\<rparr>, True), s')"
    "maps s' this = Some c'" "lhm_inv T s' c' (as @ [n])"
    "entry s' = (entry s)(n \<mapsto> (k, v))" "brk s \<le> n"
    by metis
  note S' = inv_struct[OF r(3)]
  have co: "contents s' (as @ [n]) = contents s as @ [(k, v)]"
    by (rule contents_snoc[OF r(4) inv_fresh[OF I r(5)]])
  have en: "entry s' n = Some (k, v)" using r(4) by simp
  have "holds_key T s' k n" using en hash_ok_refl[OF H] by (simp add: holds_key_def)
  then have lk: "lookup T s' (as @ [n]) k = Some n"
    using lookup_holds[OF S' _ _ H, of n k] by simp
  have a1: "at T s' this k = Some (Inr n)" using at_spec[OF H S' r(2), of k] lk by simp
  have c1: "count T s' this k = Some 1" using count_spec[OF H S' r(2), of k] lk by simp
  have rr: "read_ref s' n = Some v" using read_ref_entry[OF en] by simp
  have de: "iter_deref s' \<lparr>node_it = Some n, map_it = Some this\<rparr> = Some (k, v)"
    by (rule deref_entry[OF en])
  define e where "e = \<lparr>node_it = Some (tail c'), map_it = Some this\<rparr>"
  have ei: "end_it s' this = Some e" using r(2) by (simp add: end_it_def e_def)
  have cl: "cursor this c' (as @ [n]) (length as) = \<lparr>node_it = Some n, map_it = Some this\<rparr>"
    "cursor this c' (as @ [n]) (Suc (length as)) = e"
    by (simp_all add: cursor_def e_def nth_append)
  have inc: "iter_inc s' \<lparr>node_it = Some n, map_it = Some this\<rparr> = Some (Inr e)"
    using iter_inc_spec[OF S' r(2), of "length as"] cl by simp
  have dec: "iter_dec s' e = Some (Inr \<lparr>node_it = Some n, map_it = Some this\<rparr>)"
    using iter_dec_spec[OF S' r(2), of "Suc (length as)"] cl by simp
  show ?thesis by (rule that[OF r(1,2,3) co ei inc dec de a1 rr c1])
qed

lemma separate_sym: "separate c as co aso \<Longrightarrow> separate co aso c as"
  by (auto simp: separate_def)

lemma ctor_other:
  assumes Io: "lhm_inv T s co aso" and Mo: "maps s other = Some co" and ne: "this \<noteq> other"
  obtains s1 c1 where "linked_hashmap_ctor this s = Some s1" "maps s1 this = Some c1"
    "lhm_inv T s1 c1 []" "bucket_count c1 = INITIAL_BUCKET_COUNT"
    "maps s1 other = Some co" "lhm_inv T s1 co aso" "contents s1 aso = contents s aso"
    "separate c1 [] co aso"
proof -
  define c1 where "c1 = \<lparr>head = brk s, tail = Suc (brk s), buckets = Suc (Suc (brk s)),
            bucket_count = INITIAL_BUCKET_COUNT, element_count = 0\<rparr>"
  define s1 where "s1 = fresh_map this INITIAL_BUCKET_COUNT s"
  have 1: "linked_hashmap_ctor this s = Some s1" by (simp add: ctor_eq s1_def)
  have 2: "maps s1 this = Some c1" by (simp add: s1_def c1_def fresh_map_frame)
  have 3: "lhm_inv T s1 c1 []" unfolding s1_def c1_def
    by (rule fresh_map_inv) (simp add: INITIAL_BUCKET_COUNT_def)
  have 4: "bucket_count c1 = INITIAL_BUCKET_COUNT" by (simp add: c1_def)
  have 5: "maps s1 other = Some co" using Mo ne by (simp add: s1_def fresh_map_frame)
  have 6: "lhm_inv T s1 co aso" unfolding s1_def by (rule fresh_other(1)[OF Io])
  have 7: "contents s1 aso = contents s aso" unfolding s1_def by (rule fresh_other(2)[OF Io])
  have 8: "separate c1 [] co aso" unfolding c1_def by (rule fresh_other(3)[OF Io])
  show ?thesis by (rule that[OF 1 2 3 4 5 6 7 8])
qed

lemma calls_frame:
  assumes H: "hash_ok T" and I: "lhm_inv T s c as" and M: "maps s this = Some c"
    and Io: "lhm_inv T s co aso" and Mo: "maps s other = Some co"
    and sep: "separate c as co aso" and ne: "this \<noteq> other"
  shows "\<exists>e s' c' as'. run_calls T this cs s = Some (e, s') \<and> maps s' this = Some c' \<and>
     lhm_inv T s' c' as' \<and> bucket_count c \<le> bucket_count c' \<and>
     maps s' other = Some co \<and> lhm_inv T s' co aso \<and> contents s' aso = contents s aso \<and>
     separate c' as' co aso"
proof -
  from run_calls_spec[OF H I M, of cs] obtain e s' where r:
    "run_calls T this cs s = Some (e, s')" "step_ok T this s c as s'"
    by blast
  from r(2) obtain c' as' where st: "maps s' this = Some c'" "lhm_inv T s' c' as'"
    "changes_only this s c as s' c' as'" "bucket_count c \<le> bucket_count c'"
    unfolding step_ok_def by blast
  have mo: "maps s' other = Some co" using st(3) Mo ne unfolding changes_only_def by metis
  note fo = frame_other(1-3)[OF st(3) Io sep]
  show ?thesis using r(1) st(1,2,4) mo fo by blast
qed

lemma copy_ofI:
  assumes H: "hash_ok T" and ne: "this \<noteq> other"
    and M: "maps s' this = Some c'" and I: "lhm_inv T s' c' as'"
    and Mo: "maps s' other = Some co" and Io: "lhm_inv T s' co aso"
    and sep: "separate c' as' co aso"
    and co: "contents s' as' = kvs" "contents s' aso = kvs"
    and bc: "bucket_count c' = bucket_count co"
  shows "copy_of T this other co kvs s'"
proof -
  have ind: "independent T s' this other" unfolding independent_def using M I Mo Io sep by blast
  have it: "iterate s' this = Some kvs" "iterate s' other = Some kvs"
    using iterate_inv[OF M I] iterate_inv[OF Mo Io] co by simp_all
  have sz: "size_lhm s' this = Some (length kvs)" "size_lhm s' other = Some (length kvs)"
    using size_spec[OF M I] size_spec[OF Mo Io] co length_contents[of s' as']
      length_contents[of s' aso] by simp_all
  have nb: "buckets c' \<noteq> buckets co" using sep by (simp add: separate_def)
  have after: "\<exists>e s''. run_calls T this cs s' = Some (e, s'') \<and>
      maps s'' other = Some co \<and> independent T s'' this other \<and>
      iterate s'' other = Some kvs \<and> size_lhm s'' other = Some (length kvs)" for cs
  proof -
    from calls_frame[OF H I M Io Mo sep ne, of cs] obtain e s'' c'' as'' where r:
      "run_calls T this cs s' = Some (e, s'')" "maps s'' this = Some c''"
      "lhm_inv T s'' c'' as''" "maps s'' other = Some co" "lhm_inv T s'' co aso"
      "contents s'' aso = contents s' aso" "separate c'' as'' co aso"
      by blast
    have "independent T s'' this other" unfolding independent_def using r(2-5,7) by blast
    moreover have "iterate s'' other = Some kvs" using iterate_inv[OF r(4,5)] r(6) co by simp
    moreover have "size_lhm s'' other = Some (length kvs)"
      using size_spec[OF r(4,5)] co(2) length_contents[of s' aso] by simp
    ultimately show ?thesis using r(1,4) by blast
  qed
  show ?thesis unfolding copy_of_def using M Mo ind it sz bc nb after by blast
qed

lemma two_maps_state:
  obtains s c as c1 where "two_maps = Some s"
    "maps s 0 = Some c" "lhm_inv nat_traits s c as"
    "contents s as =
       [(1, 10), (2, 20), (3, 30), (4, 40), (5, 50), (6, 60), (7, 70), (8, 80), (9, 90),
        (10, 100), (11, 110), (12, 120), (13, 130)]"
    "bucket_count c = 32"
    "maps s 1 = Some c1" "lhm_inv nat_traits s c1 []" "bucket_count c1 = 16"
    "separate c as c1 []"
proof -
  define cs :: "(nat, nat) call list" where "cs =
    [Insert 1 10, Insert 2 20, Insert 3 30, Insert 4 40, Insert 5 50,
     Insert 6 60, Insert 7 70, Insert 8 80, Insert 9 90, Insert 10 100,
     Insert 11 110, Insert 12 120, Insert 13 130]"
  have ok: "script_ok nat_traits [] cs" by (simp add: cs_def nat_traits_def)
  have ins: "inserted cs =
    [(1, 10), (2, 20), (3, 30), (4, 40), (5, 50), (6, 60), (7, 70), (8, 80), (9, 90),
     (10, 100), (11, 110), (12, 120), (13, 130)]"
    by (simp add: cs_def)
  have ba: "buckets_after INITIAL_BUCKET_COUNT 0 cs = 32"
    by (simp add: cs_def INITIAL_BUCKET_COUNT_def)
  from example_state_full[OF ok] obtain s1 s2 c as where st:
    "linked_hashmap_ctor 0 empty_heap = Some s1"
    "run_calls nat_traits 0 cs s1 = Some (None, s2)" "maps s2 0 = Some c"
    "lhm_inv nat_traits s2 c as" "contents s2 as = inserted cs"
    "bucket_count c = buckets_after INITIAL_BUCKET_COUNT 0 cs"
    by metis
  from ctor_other[OF st(4,3), of 1] obtain s c1 where r:
    "linked_hashmap_ctor 1 s2 = Some s" "maps s 1 = Some c1"
    "lhm_inv nat_traits s c1 []" "bucket_count c1 = INITIAL_BUCKET_COUNT"
    "maps s 0 = Some c" "lhm_inv nat_traits s c as" "contents s as = contents s2 as"
    "separate c1 [] c as"
    by (metis zero_neq_one)
  have tm: "two_maps = Some s" using st(1) st(2)[unfolded cs_def] r(1)
    by (simp add: two_maps_def del: run_calls.simps)
  show ?thesis
    by (rule that[OF tm r(5,6) _ _ r(2,3) _ separate_sym[OF r(8)]])
      (use r(7) st(5,6) ins ba r(4) in \<open>simp_all add: INITIAL_BUCKET_COUNT_def\<close>)
qed





section \<open>The claims\<close>

text \<open>
  C1 (order preservation).  Take a freshly constructed container and any script of
  insertions of keys that differ from all keys inserted before, with calls of \<^verbatim>\<open>at\<close>,
  \<^verbatim>\<open>find\<close>, \<^verbatim>\<open>count\<close> and \<^verbatim>\<open>operator[]\<close> in between (\<^verbatim>\<open>at\<close> and \<^verbatim>\<open>operator[]\<close> on present
  keys).  The script runs to its end without an exception, and walking the container
  from \<^verbatim>\<open>begin()\<close> to \<^verbatim>\<open>end()\<close> then yields exactly the inserted pairs in the order of
  their insertion; their number is \<^verbatim>\<open>size()\<close>, the container's \<open>element_count\<close>.
\<close>

theorem insertion_order_preserved:
  assumes "hash_ok T" and "script_ok T [] cs"
  shows "\<exists>s1 s'. linked_hashmap_ctor this s = Some s1 \<and>
           run_calls T this cs s1 = Some (None, s') \<and>
           iterate s' this = Some (inserted cs) \<and>
           size_lhm s' this = Some (length (inserted cs))"
proof -
  from ctor_spec[of this s T] obtain s1 c1 where c:
    "linked_hashmap_ctor this s = Some s1" "maps s1 this = Some c1" "lhm_inv T s1 c1 []"
    by metis
  have "script_ok T (map fst (contents s1 [])) cs" using assms(2) by (simp add: contents_def)
  from script_spec[OF assms(1) c(3,2) this] obtain s' c' as' where r:
    "run_calls T this cs s1 = Some (None, s')" "maps s' this = Some c'"
    "lhm_inv T s' c' as'" "contents s' as' = contents s1 [] @ inserted cs"
    by blast
  have eq: "contents s' as' = inserted cs" using r(4) by (simp add: contents_def)
  have "iterate s' this = Some (inserted cs)"
    using iterate_spec[OF inv_struct[OF r(3)] r(2)] eq by simp
  moreover have "size_lhm s' this = Some (length (inserted cs))"
    using size_spec[OF r(2,3)] length_contents[of s' as'] eq by simp
  ultimately show ?thesis using c(1) r(1) by blast
qed

theorem insertion_order_preserved_witness:
  "hash_ok nat_traits \<and>
   script_ok nat_traits []
     [Insert 3 30, At 3, Insert 1 10, Find 7, Subscript 1, Count 3, Insert 2 20] \<and>
   (\<exists>s1 s'. linked_hashmap_ctor 0 empty_heap = Some s1 \<and>
      run_calls nat_traits 0
        [Insert 3 30, At 3, Insert 1 10, Find 7, Subscript 1, Count 3, Insert 2 20] s1 =
        Some (None, s') \<and>
      iterate s' 0 = Some [(3, 30), (1, 10), (2, 20)] \<and> size_lhm s' 0 = Some 3)"
proof -
  have ok: "script_ok nat_traits []
     [Insert 3 30, At 3, Insert 1 10, Find 7, Subscript 1, Count 3, Insert 2 20]"
    by (simp add: nat_traits_def)
  have i: "inserted [Insert 3 30, At 3, Insert 1 10, Find 7, Subscript 1, Count 3, Insert 2 20] =
      [(3, 30), (1, 10), (2, 20 :: nat)]"
    by simp
  have l: "length [(3, 30), (1, 10), (2 :: nat, 20 :: nat)] = 3" by simp
  show ?thesis
    using insertion_order_preserved[OF hash_ok_nat ok, of 0 empty_heap] hash_ok_nat ok
    unfolding i l by blast
qed

text \<open>
  C2 (re-insertion stability).  In a container that satisfies the invariant, let \<open>k\<close> be a
  present key (\<^verbatim>\<open>count\<close> gives 1) and \<open>kv\<close> its entry among the entries \<open>kvs\<close> of the walk from
  \<^verbatim>\<open>begin()\<close> to \<^verbatim>\<open>end()\<close>.  Then \<^verbatim>\<open>insert(k, v')\<close> returns the position \<^verbatim>\<open>find(k)\<close> gives, which
  dereferences to \<open>kv\<close>, with the flag false, and the store it returns is the store before
  the call: no link, value, count or bucket has changed.  Erasing that position and then
  inserting \<open>(k, v')\<close> succeeds with the flag true; the walk then gives the other entries in
  their old order followed by \<open>(k, v')\<close>, and the new position is the last one: advancing
  it gives \<^verbatim>\<open>end()\<close>, and retreating \<^verbatim>\<open>end()\<close> gives it.
\<close>

theorem reinsertion_is_stable:
  assumes "hash_ok T" and "maps s this = Some c" and "lhm_inv T s c as"
    and "count T s this k = Some 1"
  shows "\<exists>kvs kv pos. iterate s this = Some kvs \<and>
           find (\<lambda>kv. equal_func T (fst kv) k) kvs = Some kv \<and>
           find_lhm T s this k = Some pos \<and> iter_deref s pos = Some kv \<and>
           insert_lhm T this (k, v') s = Some ((pos, False), s) \<and>
           (\<exists>s1 it s2 e. erase T this pos s = Some (Inr s1) \<and>
              insert_lhm T this (k, v') s1 = Some ((it, True), s2) \<and>
              iterate s2 this =
                Some (filter (\<lambda>kv. \<not> equal_func T (fst kv) k) kvs @ [(k, v')]) \<and>
              iter_deref s2 it = Some (k, v') \<and>
              end_it s2 this = Some e \<and> iter_inc s2 it = Some (Inr e) \<and>
              iter_dec s2 e = Some (Inr it))"
proof -
  note S = inv_struct[OF assms(3)]
  from count_spec[OF assms(1) S assms(2), of k] assms(4) obtain a where
    L: "lookup T s as k = Some a"
    by (cases "lookup T s as k") simp_all
  from lookup_Some_entry[OF L] obtain d where d: "a \<in> set as" "entry s a = Some d" by blast
  define pos where "pos = \<lparr>node_it = Some a, map_it = Some this\<rparr>"
  have i0: "iterate s this = Some (contents s as)" by (rule iterate_inv[OF assms(2,3)])
  have f: "find (\<lambda>kv. equal_func T (fst kv) k) (contents s as) = Some d"
    using lookup_find[OF structD(3)[OF S], of T k] L d by simp
  have fl: "find_lhm T s this k = Some pos"
    using find_spec[OF assms(1) S assms(2), of k] L by (simp add: pos_def)
  have de: "iter_deref s pos = Some d" unfolding pos_def by (rule deref_entry[OF d(2)])
  have ins: "insert_lhm T this (k, v') s = Some ((pos, False), s)"
    using insert_present[OF assms(1) S assms(2) L, of v'] by (simp add: pos_def)
  from erase_present[OF assms(1,3,2) L] obtain s1 c1 as1 where e:
    "erase T this pos s = Some (Inr s1)"
    "maps s1 this = Some c1" "lhm_inv T s1 c1 as1"
    "contents s1 as1 = filter (\<lambda>kv. \<not> equal_func T (fst kv) k) (contents s as)"
    "lookup T s1 as1 k = None"
    unfolding pos_def by metis
  from insert_last[OF assms(1) e(3,2,5), of v'] obtain n s2 c2 en where r:
    "insert_lhm T this (k, v') s1 =
       Some ((\<lparr>node_it = Some n, map_it = Some this\<rparr>, True), s2)"
    "maps s2 this = Some c2" "lhm_inv T s2 c2 (as1 @ [n])"
    "contents s2 (as1 @ [n]) = contents s1 as1 @ [(k, v')]"
    "end_it s2 this = Some en"
    "iter_inc s2 \<lparr>node_it = Some n, map_it = Some this\<rparr> = Some (Inr en)"
    "iter_dec s2 en = Some (Inr \<lparr>node_it = Some n, map_it = Some this\<rparr>)"
    "iter_deref s2 \<lparr>node_it = Some n, map_it = Some this\<rparr> = Some (k, v')"
    by metis
  have i2: "iterate s2 this =
      Some (filter (\<lambda>kv. \<not> equal_func T (fst kv) k) (contents s as) @ [(k, v')])"
    using iterate_inv[OF r(2,3)] r(4) e(4) by simp
  have second: "\<exists>s1 it s2 e. erase T this pos s = Some (Inr s1) \<and>
      insert_lhm T this (k, v') s1 = Some ((it, True), s2) \<and>
      iterate s2 this =
        Some (filter (\<lambda>kv. \<not> equal_func T (fst kv) k) (contents s as) @ [(k, v')]) \<and>
      iter_deref s2 it = Some (k, v') \<and>
      end_it s2 this = Some e \<and> iter_inc s2 it = Some (Inr e) \<and>
      iter_dec s2 e = Some (Inr it)"
    using e(1) r(1) i2 r(8,5,6,7) by blast
  show ?thesis
    using i0 f fl de ins second
    by (intro exI[of _ "contents s as"] exI[of _ d] exI[of _ pos]) simp
qed

theorem reinsertion_is_stable_witness:
  "hash_ok nat_traits \<and>
   (\<exists>s0 s c as. linked_hashmap_ctor 0 empty_heap = Some s0 \<and>
      run_calls nat_traits 0 [Insert 1 10, Insert 2 20, Insert 3 30] s0 = Some (None, s) \<and>
      maps s 0 = Some c \<and> lhm_inv nat_traits s c as \<and> count nat_traits s 0 2 = Some 1 \<and>
      iterate s 0 = Some [(1, 10), (2, 20), (3, 30)] \<and>
      (\<exists>pos. find_lhm nat_traits s 0 2 = Some pos \<and> iter_deref s pos = Some (2, 20) \<and>
         insert_lhm nat_traits 0 (2, 9) s = Some ((pos, False), s) \<and>
         (\<exists>s1 it s2 e. erase nat_traits 0 pos s = Some (Inr s1) \<and>
            insert_lhm nat_traits 0 (2, 9) s1 = Some ((it, True), s2) \<and>
            iterate s2 0 = Some [(1, 10), (3, 30), (2, 9)] \<and>
            iter_deref s2 it = Some (2, 9) \<and>
            end_it s2 0 = Some e \<and> iter_inc s2 it = Some (Inr e) \<and>
            iter_dec s2 e = Some (Inr it))))"
proof -
  define cs :: "(nat, nat) call list" where "cs = [Insert 1 10, Insert 2 20, Insert 3 30]"
  have ok: "script_ok nat_traits [] cs" by (simp add: cs_def nat_traits_def)
  have ins: "inserted cs = [(1, 10), (2, 20), (3, 30)]" by (simp add: cs_def)
  from example_state[OF ok] obtain s0 s c as where st:
    "linked_hashmap_ctor 0 empty_heap = Some s0"
    "run_calls nat_traits 0 cs s0 = Some (None, s)" "maps s 0 = Some c"
    "lhm_inv nat_traits s c as" "contents s as = inserted cs"
    by metis
  have it0: "iterate s 0 = Some [(1, 10), (2, 20), (3, 30)]"
    using iterate_inv[OF st(3,4)] st(5) ins by simp
  have c2: "count nat_traits s 0 2 = Some 1"
    using count_contents[OF hash_ok_nat st(4,3), of 2] st(5) ins by (simp add: nat_traits_def)
  have f2: "find (\<lambda>kv. equal_func nat_traits (fst kv) 2) [(1, 10), (2, 20), (3, 30 :: nat)] =
      Some (2, 20)"
    and fi: "filter (\<lambda>kv. \<not> equal_func nat_traits (fst kv) 2) [(1, 10), (2, 20), (3, 30 :: nat)] =
      [(1, 10), (3, 30)]"
    by (simp_all add: nat_traits_def)
  from reinsertion_is_stable[OF hash_ok_nat st(3,4) c2, of 9] it0 f2 fi
  have "\<exists>pos. find_lhm nat_traits s 0 2 = Some pos \<and> iter_deref s pos = Some (2, 20) \<and>
         insert_lhm nat_traits 0 (2, 9) s = Some ((pos, False), s) \<and>
         (\<exists>s1 it s2 e. erase nat_traits 0 pos s = Some (Inr s1) \<and>
            insert_lhm nat_traits 0 (2, 9) s1 = Some ((it, True), s2) \<and>
            iterate s2 0 = Some [(1, 10), (3, 30), (2, 9)] \<and>
            iter_deref s2 it = Some (2, 9) \<and>
            end_it s2 0 = Some e \<and> iter_inc s2 it = Some (Inr e) \<and>
            iter_dec s2 e = Some (Inr it))"
    by auto
  then show ?thesis
    using hash_ok_nat st(1,3,4) st(2)[unfolded cs_def] it0 c2 by blast
qed

text \<open>
  C3 (load factor).  In a container that satisfies the invariant, \<^verbatim>\<open>insert\<close> returns, the
  invariant holds again, and afterwards \<open>element_count \<le> 0.75 * bucket_count\<close>, written
  \<open>4 * element_count \<le> 3 * bucket_count\<close>.  The flag returned is true exactly when the key
  was absent (\<^verbatim>\<open>count\<close> gave 0 before the call).  For an absent key: one entry more is
  counted; when \<open>element_count + 1 > 0.75 * bucket_count\<close> the bucket count afterwards is
  exactly twice the bucket count before, and otherwise it is unchanged; the walk from
  \<^verbatim>\<open>begin()\<close> to \<^verbatim>\<open>end()\<close> gives the old entries followed by the new pair; the position
  returned is the head of the chain of bucket \<open>hash(key) mod bucket_count\<close> of the array after
  the call, with the bucket count after the call (the doubled one after a rehash), and
  dereferences to the new pair; and \<^verbatim>\<open>count\<close> finds, through the table after the call, the
  new key and exactly the keys it found before.  For a present key the store is unchanged.
\<close>

theorem insert_keeps_load_factor:
  assumes "hash_ok T" and "maps s this = Some c" and "lhm_inv T s c as"
  shows "\<exists>kvs it b s' c' as'.
           iterate s this = Some kvs \<and>
           insert_lhm T this (k, v) s = Some ((it, b), s') \<and>
           maps s' this = Some c' \<and> lhm_inv T s' c' as' \<and>
           4 * element_count c' \<le> 3 * bucket_count c' \<and>
           b = (count T s this k = Some 0) \<and>
           (if count T s this k = Some 0
            then element_count c' = element_count c + 1 \<and>
                 bucket_count c' =
                   (if 3 * bucket_count c < 4 * (element_count c + 1)
                    then 2 * bucket_count c else bucket_count c) \<and>
                 iterate s' this = Some (kvs @ [(k, v)]) \<and>
                 read_bucket s' (buckets c') (hash_func T k mod bucket_count c') =
                   Some (node_it it) \<and>
                 iter_deref s' it = Some (k, v) \<and>
                 (\<forall>k'. count T s' this k' =
                    (if equal_func T k k' then Some 1 else count T s this k'))
            else s' = s)"
proof (cases "lookup T s as k")
  case None
  note S = inv_struct[OF assms(3)]
  from insert_absent[OF assms(1,3,2) None, of v] obtain s' c' n where r:
    "insert_lhm T this (k, v) s = Some ((\<lparr>node_it = Some n, map_it = Some this\<rparr>, True), s')"
    "maps s' this = Some c'" "lhm_inv T s' c' (as @ [n])"
    "entry s' = (entry s)(n \<mapsto> (k, v))" "brk s \<le> n"
    "bucket_count c' =
       (if 3 * bucket_count c < 4 * (length as + 1) then bucket_count c * 2 else bucket_count c)"
    "read_bucket s' (buckets c') (hash_func T k mod bucket_count c') = Some (Some n)"
    by metis
  define it where "it = \<lparr>node_it = Some n, map_it = Some this\<rparr>"
  have ec: "element_count c = length as" "element_count c' = length as + 1"
    using inv_counts(1)[OF assms(3)] inv_counts(1)[OF r(3)] by simp_all
  have ld: "4 * element_count c' \<le> 3 * bucket_count c'" by (rule inv_counts(2)[OF r(3)])
  have c0: "count T s this k = Some 0" using count_spec[OF assms(1) S assms(2), of k] None by simp
  have co: "contents s' (as @ [n]) = contents s as @ [(k, v)]"
    by (rule contents_snoc[OF r(4) inv_fresh[OF assms(3) r(5)]])
  have i0: "iterate s this = Some (contents s as)" by (rule iterate_inv[OF assms(2,3)])
  have i1: "iterate s' this = Some (contents s as @ [(k, v)])"
    using iterate_inv[OF r(2,3)] co by simp
  have bc: "bucket_count c' =
      (if 3 * bucket_count c < 4 * (element_count c + 1) then 2 * bucket_count c
       else bucket_count c)"
    using r(6) ec(1) by simp
  have "entry s' n = Some (k, v)" using r(4) by simp
  then have de: "iter_deref s' it = Some (k, v)"
    by (auto simp: iter_deref_def it_def load_def view_Some)
  have rb: "read_bucket s' (buckets c') (hash_func T k mod bucket_count c') = Some (node_it it)"
    using r(7) by (simp add: it_def)
  have cn: "count T s' this k' = (if equal_func T k k' then Some 1 else count T s this k')" for k'
    using count_contents[OF assms(1) r(3,2), of k'] count_contents[OF assms(1,3,2), of k'] co
    by simp
  have ins: "insert_lhm T this (k, v) s = Some ((it, True), s')" using r(1) by (simp add: it_def)
  show ?thesis
    using i0 ins r(2,3) ld c0 ec bc i1 rb de cn
    by (intro exI[of _ "contents s as"] exI[of _ it] exI[of _ True] exI[of _ s'] exI[of _ c']
        exI[of _ "as @ [n]"]) simp
next
  case (Some a)
  note S = inv_struct[OF assms(3)]
  have c1: "count T s this k = Some 1" using count_spec[OF assms(1) S assms(2), of k] Some by simp
  show ?thesis
    using insert_present[OF assms(1) S assms(2) Some, of v] assms(2,3) c1
      inv_counts(2)[OF assms(3)] iterate_inv[OF assms(2,3)]
    by (intro exI[of _ "contents s as"] exI[of _ "\<lparr>node_it = Some a, map_it = Some this\<rparr>"]
        exI[of _ False] exI[of _ s] exI[of _ c] exI[of _ as]) simp
qed

theorem insert_keeps_load_factor_witness:
  "hash_ok nat_traits \<and>
   (\<exists>s1 s c as. linked_hashmap_ctor 0 empty_heap = Some s1 \<and>
      run_calls nat_traits 0
        [Insert 1 10, Insert 2 20, Insert 3 30, Insert 4 40, Insert 5 50, Insert 6 60,
         Insert 7 70, Insert 8 80, Insert 9 90, Insert 10 100, Insert 11 110, Insert 12 120] s1 =
        Some (None, s) \<and>
      maps s 0 = Some c \<and> lhm_inv nat_traits s c as \<and>
      element_count c = 12 \<and> bucket_count c = 16 \<and> count nat_traits s 0 13 = Some 0 \<and>
      (\<exists>it s' c' as'.
         insert_lhm nat_traits 0 (13, 130) s = Some ((it, True), s') \<and>
         maps s' 0 = Some c' \<and> lhm_inv nat_traits s' c' as' \<and>
         element_count c' = 13 \<and> bucket_count c' = 32 \<and>
         iterate s' 0 =
           Some [(1, 10), (2, 20), (3, 30), (4, 40), (5, 50), (6, 60), (7, 70), (8, 80),
                 (9, 90), (10, 100), (11, 110), (12, 120), (13, 130)] \<and>
         read_bucket s' (buckets c') 13 = Some (node_it it) \<and>
         iter_deref s' it = Some (13, 130) \<and>
         count nat_traits s' 0 13 = Some 1 \<and> count nat_traits s' 0 5 = Some 1 \<and>
         count nat_traits s' 0 29 = Some 0))"
proof -
  define cs :: "(nat, nat) call list" where "cs =
    [Insert 1 10, Insert 2 20, Insert 3 30, Insert 4 40, Insert 5 50, Insert 6 60,
     Insert 7 70, Insert 8 80, Insert 9 90, Insert 10 100, Insert 11 110, Insert 12 120]"
  have ok: "script_ok nat_traits [] cs" by (simp add: cs_def nat_traits_def)
  have ins: "inserted cs =
    [(1, 10), (2, 20), (3, 30), (4, 40), (5, 50), (6, 60), (7, 70), (8, 80),
     (9, 90), (10, 100), (11, 110), (12, 120)]"
    by (simp add: cs_def)
  have ba: "buckets_after INITIAL_BUCKET_COUNT 0 cs = 16"
    by (simp add: cs_def INITIAL_BUCKET_COUNT_def)
  from example_state_full[OF ok] obtain s1 s c as where st:
    "linked_hashmap_ctor 0 empty_heap = Some s1"
    "run_calls nat_traits 0 cs s1 = Some (None, s)" "maps s 0 = Some c"
    "lhm_inv nat_traits s c as" "contents s as = inserted cs"
    "bucket_count c = buckets_after INITIAL_BUCKET_COUNT 0 cs"
    by metis
  have len: "length as = 12" using length_contents[of s as] st(5) ins by simp
  have ec: "element_count c = 12" using inv_counts(1)[OF st(4)] len by simp
  have bc: "bucket_count c = 16" using st(6) ba by simp
  have it0: "iterate s 0 = Some (inserted cs)" using iterate_inv[OF st(3,4)] st(5) by simp
  have c13: "count nat_traits s 0 13 = Some 0"
    using count_contents[OF hash_ok_nat st(4,3), of 13] st(5) ins by (simp add: nat_traits_def)
  have c5: "count nat_traits s 0 5 = Some 1"
    using count_contents[OF hash_ok_nat st(4,3), of 5] st(5) ins by (simp add: nat_traits_def)
  have c29: "count nat_traits s 0 29 = Some 0"
    using count_contents[OF hash_ok_nat st(4,3), of 29] st(5) ins by (simp add: nat_traits_def)
  have h: "hash_func nat_traits 13 mod 32 = 13" "equal_func nat_traits 13 13"
    "\<not> equal_func nat_traits 13 5" "\<not> equal_func nat_traits 13 29"
    by (simp_all add: nat_traits_def)
  from insert_keeps_load_factor[OF hash_ok_nat st(3,4), of 13 130]
  obtain kvs it b s' c' as' where r:
    "iterate s 0 = Some kvs" "insert_lhm nat_traits 0 (13, 130) s = Some ((it, b), s')"
    "maps s' 0 = Some c'" "lhm_inv nat_traits s' c' as'"
    "b = (count nat_traits s 0 13 = Some 0)"
    "if count nat_traits s 0 13 = Some 0
     then element_count c' = element_count c + 1 \<and>
          bucket_count c' =
            (if 3 * bucket_count c < 4 * (element_count c + 1)
             then 2 * bucket_count c else bucket_count c) \<and>
          iterate s' 0 = Some (kvs @ [(13, 130)]) \<and>
          read_bucket s' (buckets c') (hash_func nat_traits 13 mod bucket_count c') =
            Some (node_it it) \<and>
          iter_deref s' it = Some (13, 130) \<and>
          (\<forall>k'. count nat_traits s' 0 k' =
             (if equal_func nat_traits 13 k' then Some 1 else count nat_traits s 0 k'))
     else s' = s"
    by blast
  have kvs: "kvs = inserted cs" using r(1) it0 by simp
  have b: "b" using r(5) c13 by simp
  have e: "element_count c' = 13" "bucket_count c' = 32"
    "iterate s' 0 = Some (inserted cs @ [(13, 130)])"
    "read_bucket s' (buckets c') (hash_func nat_traits 13 mod bucket_count c') = Some (node_it it)"
    "iter_deref s' it = Some (13, 130)"
    "\<And>k'. count nat_traits s' 0 k' =
       (if equal_func nat_traits 13 k' then Some 1 else count nat_traits s 0 k')"
  proof -
    have all: "element_count c' = element_count c + 1 \<and>
          bucket_count c' =
            (if 3 * bucket_count c < 4 * (element_count c + 1)
             then 2 * bucket_count c else bucket_count c) \<and>
          iterate s' 0 = Some (kvs @ [(13, 130)]) \<and>
          read_bucket s' (buckets c') (hash_func nat_traits 13 mod bucket_count c') =
            Some (node_it it) \<and>
          iter_deref s' it = Some (13, 130) \<and>
          (\<forall>k'. count nat_traits s' 0 k' =
             (if equal_func nat_traits 13 k' then Some 1 else count nat_traits s 0 k'))"
      using r(6) unfolding if_P[OF c13] .
    show "element_count c' = 13" "bucket_count c' = 32" using all ec bc by simp_all
    show "iterate s' 0 = Some (inserted cs @ [(13, 130)])" using all kvs by simp
    show "read_bucket s' (buckets c') (hash_func nat_traits 13 mod bucket_count c') =
        Some (node_it it)"
      using all by blast
    show "iter_deref s' it = Some (13, 130)" using all by blast
    show "\<And>k'. count nat_traits s' 0 k' =
       (if equal_func nat_traits 13 k' then Some 1 else count nat_traits s 0 k')"
      using all by blast
  qed
  have rb: "read_bucket s' (buckets c') 13 = Some (node_it it)" using e(4) e(2) h(1) by simp
  have cn: "count nat_traits s' 0 13 = Some 1" "count nat_traits s' 0 5 = Some 1"
    "count nat_traits s' 0 29 = Some 0"
    using e(6)[of 13] e(6)[of 5] e(6)[of 29] h c5 c29 by simp_all
  have i1: "iterate s' 0 =
     Some [(1, 10), (2, 20), (3, 30), (4, 40), (5, 50), (6, 60), (7, 70), (8, 80),
           (9, 90), (10, 100), (11, 110), (12, 120), (13, 130)]"
    using e(3) ins by simp
  have ins13: "insert_lhm nat_traits 0 (13, 130) s = Some ((it, True), s')" using r(2) b by simp
  show ?thesis
    using hash_ok_nat st(1,3,4) st(2)[unfolded cs_def] ec bc c13 ins13 r(3,4) e(1,2) i1 rb e(5) cn
    by blast
qed

text \<open>
  C4, as stated, fails: copy assignment gives the destination the bucket count of the
  source.  A container that has grown to 32 buckets by thirteen insertions and is then
  assigned a new, empty container has 16 buckets afterwards.
\<close>

theorem assignment_shrinks_bucket_count: "shrink_example = Some (32, 16)"
proof -
  from two_maps_state obtain s c as c1 where st: "two_maps = Some s"
    "maps s 0 = Some c" "lhm_inv nat_traits s c as" "bucket_count c = 32"
    "maps s 1 = Some c1" "lhm_inv nat_traits s c1 []" "bucket_count c1 = 16"
    "separate c as c1 []"
    by metis
  from assign_spec[OF hash_ok_nat _ st(2,3,5,6,8)] obtain s' c' where r:
    "assign nat_traits 0 1 s = Some s'" "maps s' 0 = Some c'" "bucket_count c' = bucket_count c1"
    by (metis zero_neq_one)
  show ?thesis by (simp add: shrink_example_def st(1,2,4,7) r del: One_nat_def)
qed

text \<open>
  C4 (bucket count), amended.  In a container that satisfies the invariant, any sequence of
  calls of \<^verbatim>\<open>insert\<close>, \<^verbatim>\<open>erase\<close>, \<^verbatim>\<open>clear\<close>, \<^verbatim>\<open>at\<close>, \<^verbatim>\<open>find\<close>, \<^verbatim>\<open>count\<close>, \<^verbatim>\<open>operator[]\<close>, writes
  through the references they return, and self-assignment ends (at its end or at the
  first exception) with the invariant established and a bucket count that is not smaller
  than before.  Copy assignment from another container returns with the invariant
  established and with the bucket count of the source, whatever the bucket count of the
  destination was.
\<close>

theorem bucket_count_grows_except_by_copy_assignment:
  assumes "hash_ok T" and "maps s this = Some c" and "lhm_inv T s c as"
  shows "(\<exists>e s' c' as'. run_calls T this cs s = Some (e, s') \<and> maps s' this = Some c' \<and>
            lhm_inv T s' c' as' \<and> bucket_count c \<le> bucket_count c') \<and>
         (\<forall>other co. maps s other = Some co \<and> independent T s this other \<longrightarrow>
            (\<exists>s' c' as'. assign T this other s = Some s' \<and> maps s' this = Some c' \<and>
               lhm_inv T s' c' as' \<and> bucket_count c' = bucket_count co))"
proof (intro conjI allI impI)
  from run_calls_spec[OF assms(1,3,2), of cs] obtain e s' where r:
    "run_calls T this cs s = Some (e, s')" "step_ok T this s c as s'"
    by blast
  then show "\<exists>e s' c' as'. run_calls T this cs s = Some (e, s') \<and> maps s' this = Some c' \<and>
      lhm_inv T s' c' as' \<and> bucket_count c \<le> bucket_count c'"
    unfolding step_ok_def by blast
next
  fix other co
  assume a: "maps s other = Some co \<and> independent T s this other"
  then obtain c0 as0 aso where i: "maps s this = Some c0" "lhm_inv T s c0 as0"
    "lhm_inv T s co aso" "separate c0 as0 co aso"
    unfolding independent_def by auto
  have ne: "this \<noteq> other"
  proof
    assume "this = other"
    then have "co = c0" using a i(1) by simp
    then show False using i(4) by (auto simp: separate_def)
  qed
  from assign_spec[OF assms(1) ne i(1,2) conjunct1[OF a] i(3,4)] obtain s' c' as' where
    "assign T this other s = Some s'" "maps s' this = Some c'" "lhm_inv T s' c' as'"
    "bucket_count c' = bucket_count co"
    by metis
  then show "\<exists>s' c' as'. assign T this other s = Some s' \<and> maps s' this = Some c' \<and>
      lhm_inv T s' c' as' \<and> bucket_count c' = bucket_count co"
    by blast
qed

theorem bucket_count_grows_except_by_copy_assignment_witness:
  "hash_ok nat_traits \<and>
   (\<exists>s c as co. two_maps = Some s \<and> maps s 0 = Some c \<and> lhm_inv nat_traits s c as \<and>
      bucket_count c = 32 \<and>
      (\<exists>e s' c' as'.
         run_calls nat_traits 0 [Erase 1, Insert 14 140, Assign_at 2 7, Clear, Self_assign] s =
           Some (e, s') \<and>
         maps s' 0 = Some c' \<and> lhm_inv nat_traits s' c' as' \<and> 32 \<le> bucket_count c') \<and>
      maps s 1 = Some co \<and> independent nat_traits s 0 1 \<and> bucket_count co = 16 \<and>
      (\<exists>s' c' as'. assign nat_traits 0 1 s = Some s' \<and> maps s' 0 = Some c' \<and>
         lhm_inv nat_traits s' c' as' \<and> bucket_count c' = 16))"
proof -
  from two_maps_state obtain s c as c1 where st: "two_maps = Some s"
    "maps s 0 = Some c" "lhm_inv nat_traits s c as" "bucket_count c = 32"
    "maps s 1 = Some c1" "lhm_inv nat_traits s c1 []" "bucket_count c1 = 16"
    "separate c as c1 []"
    by metis
  have ind: "independent nat_traits s 0 1"
    unfolding independent_def using st(2,3,5,6,8) by blast
  note th = bucket_count_grows_except_by_copy_assignment[OF hash_ok_nat st(2,3),
      of "[Erase 1, Insert 14 140, Assign_at 2 7, Clear, Self_assign]"]
  from th obtain e s' c' as' where a:
    "run_calls nat_traits 0 [Erase 1, Insert 14 140, Assign_at 2 7, Clear, Self_assign] s =
       Some (e, s')"
    "maps s' 0 = Some c'" "lhm_inv nat_traits s' c' as'" "bucket_count c \<le> bucket_count c'"
    by blast
  from th st(5) ind obtain s2 c2 as2 where b:
    "assign nat_traits 0 1 s = Some s2" "maps s2 0 = Some c2" "lhm_inv nat_traits s2 c2 as2"
    "bucket_count c2 = bucket_count c1"
    by blast
  have a4: "32 \<le> bucket_count c'" using a(4) st(4) by simp
  have b4: "bucket_count c2 = 16" using b(4) st(7) by simp
  show ?thesis
    using hash_ok_nat st(1,2,3,4,5,7) ind a(1,2,3) a4 b(1,2,3) b4 by blast
qed




text \<open>
  C6 (\<^verbatim>\<open>at\<close> and \<^verbatim>\<open>index_out_of_bound\<close>).  In a container that satisfies the invariant, let
  \<open>kvs\<close> be the entries the walk from \<^verbatim>\<open>begin()\<close> to \<^verbatim>\<open>end()\<close> gives.  When no entry of \<open>kvs\<close>
  has a key equal to \<open>k\<close>, \<^verbatim>\<open>at(k)\<close> raises \<^verbatim>\<open>index_out_of_bound\<close>; otherwise it returns a
  reference, and reading it gives the value of the entry of \<open>kvs\<close> with that key.  \<^verbatim>\<open>at\<close> is a
  function of the store that returns no store: it changes nothing.  The read-only
  \<^verbatim>\<open>operator[]\<close> is \<^verbatim>\<open>at\<close>.  The mutating \<^verbatim>\<open>operator[]\<close> and \<^verbatim>\<open>insert\<close> always return a
  result, which has no exception in it: \<^verbatim>\<open>operator[]\<close> returns the reference \<^verbatim>\<open>at\<close> returns
  and leaves the store unchanged when the key is present, and otherwise appends the pair
  of the key and the default value, whose reference it returns.
\<close>

theorem at_raises_exactly_when_absent:
  assumes "hash_ok T" and "maps s this = Some c" and "lhm_inv T s c as"
  shows "\<exists>kvs. iterate s this = Some kvs \<and>
           (case find (\<lambda>kv. equal_func T (fst kv) k) kvs of
              None \<Rightarrow>
                at T s this k = Some (Inl index_out_of_bound) \<and>
                (\<exists>a s'. subscript T this k s = Some (a, s') \<and>
                   iterate s' this = Some (kvs @ [(k, default_T T)]) \<and>
                   at T s' this k = Some (Inr a) \<and> read_ref s' a = Some (default_T T))
            | Some kv \<Rightarrow>
                (\<exists>a. at T s this k = Some (Inr a) \<and> read_ref s a = Some (snd kv) \<and>
                   subscript T this k s = Some (a, s))) \<and>
           subscript_const T s this k = at T s this k \<and>
           (\<exists>r s'. insert_lhm T this (k, v) s = Some (r, s'))"
proof -
  note S = inv_struct[OF assms(3)]
  note lf = lookup_find[OF structD(3)[OF S], of T k]
  have i0: "iterate s this = Some (contents s as)" by (rule iterate_inv[OF assms(2,3)])
  have sc: "subscript_const T s this k = at T s this k" by (simp add: subscript_const_def)
  show ?thesis
  proof (cases "lookup T s as k")
    case None
    have f: "find (\<lambda>kv. equal_func T (fst kv) k) (contents s as) = None" using lf None by simp
    have a0: "at T s this k = Some (Inl index_out_of_bound)"
      using at_spec[OF assms(1) S assms(2), of k] None by simp
    from subscript_absent[OF assms(1,3,2) None] obtain s' n where sub:
      "subscript T this k s = Some (n, s')"
      "insert_lhm T this (k, default_T T) s =
         Some ((\<lparr>node_it = Some n, map_it = Some this\<rparr>, True), s')"
      by metis
    from insert_absent[OF assms(1,3,2) None, of "default_T T"] obtain s1 c1 n1 where r:
      "insert_lhm T this (k, default_T T) s =
         Some ((\<lparr>node_it = Some n1, map_it = Some this\<rparr>, True), s1)"
      "maps s1 this = Some c1" "lhm_inv T s1 c1 (as @ [n1])"
      "entry s1 = (entry s)(n1 \<mapsto> (k, default_T T))" "brk s \<le> n1"
      by metis
    have eq: "n1 = n" "s1 = s'" using r(1) sub(2) by simp_all
    note r' = r(2-5)[unfolded eq]
    have co: "contents s' (as @ [n]) = contents s as @ [(k, default_T T)]"
      by (rule contents_snoc[OF r'(3) inv_fresh[OF assms(3) r'(4)]])
    have i1: "iterate s' this = Some (contents s as @ [(k, default_T T)])"
      using iterate_inv[OF r'(1,2)] co by simp
    have en: "entry s' n = Some (k, default_T T)" using r'(3) by simp
    have "holds_key T s' k n" using en hash_ok_refl[OF assms(1)] by (simp add: holds_key_def)
    then have "lookup T s' (as @ [n]) k = Some n"
      using lookup_holds[OF inv_struct[OF r'(2)] _ _ assms(1), of n k] by simp
    then have a1: "at T s' this k = Some (Inr n)"
      using at_spec[OF assms(1) inv_struct[OF r'(2)] r'(1), of k] by simp
    have rr: "read_ref s' n = Some (default_T T)" using read_ref_entry[OF en] by simp
    from insert_absent[OF assms(1,3,2) None, of v] obtain it2 s2 where
      "insert_lhm T this (k, v) s = Some ((it2, True), s2)"
      by metis
    then show ?thesis using i0 f a0 sub(1) i1 a1 rr sc
      by (intro exI[of _ "contents s as"]) auto
  next
    case (Some a)
    from lookup_Some_entry[OF Some] obtain d where d: "a \<in> set as" "entry s a = Some d" by blast
    have f: "find (\<lambda>kv. equal_func T (fst kv) k) (contents s as) = Some d" using lf Some d by simp
    have a0: "at T s this k = Some (Inr a)"
      using at_spec[OF assms(1) S assms(2), of k] Some by simp
    note sub = subscript_present[OF assms(1) S assms(2) Some]
    note ins = insert_present[OF assms(1) S assms(2) Some, of v]
    show ?thesis using i0 f a0 read_ref_entry[OF d(2)] sub ins sc
      by (intro exI[of _ "contents s as"]) auto
  qed
qed

theorem at_raises_exactly_when_absent_witness:
  "hash_ok nat_traits \<and>
   (\<exists>s1 s c as. linked_hashmap_ctor 0 empty_heap = Some s1 \<and>
      run_calls nat_traits 0 [Insert 1 10, Insert 2 20, Insert 3 30] s1 = Some (None, s) \<and>
      maps s 0 = Some c \<and> lhm_inv nat_traits s c as \<and>
      iterate s 0 = Some [(1, 10), (2, 20), (3, 30)] \<and>
      at nat_traits s 0 4 = Some (Inl index_out_of_bound) \<and>
      subscript_const nat_traits s 0 4 = Some (Inl index_out_of_bound) \<and>
      (\<exists>a. at nat_traits s 0 2 = Some (Inr a) \<and> subscript_const nat_traits s 0 2 = Some (Inr a) \<and>
         read_ref s a = Some 20 \<and> subscript nat_traits 0 2 s = Some (a, s)) \<and>
      (\<exists>a s'. subscript nat_traits 0 4 s = Some (a, s') \<and>
         iterate s' 0 = Some [(1, 10), (2, 20), (3, 30), (4, 0)] \<and>
         at nat_traits s' 0 4 = Some (Inr a) \<and> read_ref s' a = Some 0))"
proof -
  define cs :: "(nat, nat) call list" where "cs = [Insert 1 10, Insert 2 20, Insert 3 30]"
  have ok: "script_ok nat_traits [] cs" by (simp add: cs_def nat_traits_def)
  have ins: "inserted cs = [(1, 10), (2, 20), (3, 30)]" by (simp add: cs_def)
  from example_state[OF ok] obtain s1 s c as where st:
    "linked_hashmap_ctor 0 empty_heap = Some s1"
    "run_calls nat_traits 0 cs s1 = Some (None, s)" "maps s 0 = Some c"
    "lhm_inv nat_traits s c as" "contents s as = inserted cs"
    by metis
  have it0: "iterate s 0 = Some [(1, 10), (2, 20), (3, 30)]"
    using iterate_inv[OF st(3,4)] st(5) ins by simp
  have f4: "find (\<lambda>kv. equal_func nat_traits (fst kv) 4) [(1, 10), (2, 20), (3, 30 :: nat)] = None"
    and f2: "find (\<lambda>kv. equal_func nat_traits (fst kv) 2) [(1, 10), (2, 20), (3, 30 :: nat)] =
      Some (2, 20)"
    and d: "default_T nat_traits = 0"
    by (simp_all add: nat_traits_def)
  from at_raises_exactly_when_absent[OF hash_ok_nat st(3,4), of 4 0] it0 f4 d
  have a4: "at nat_traits s 0 4 = Some (Inl index_out_of_bound)"
    "subscript_const nat_traits s 0 4 = Some (Inl index_out_of_bound)"
    "\<exists>a s'. subscript nat_traits 0 4 s = Some (a, s') \<and>
         iterate s' 0 = Some [(1, 10), (2, 20), (3, 30), (4, 0)] \<and>
         at nat_traits s' 0 4 = Some (Inr a) \<and> read_ref s' a = Some 0"
    by auto
  from at_raises_exactly_when_absent[OF hash_ok_nat st(3,4), of 2 0] it0 f2
  have a2: "\<exists>a. at nat_traits s 0 2 = Some (Inr a) \<and>
         subscript_const nat_traits s 0 2 = Some (Inr a) \<and>
         read_ref s a = Some 20 \<and> subscript nat_traits 0 2 s = Some (a, s)"
    by auto
  show ?thesis
    using hash_ok_nat st(1,3,4) st(2)[unfolded cs_def] it0 a4 a2 by blast
qed

text \<open>
  C7 (round trip).  In a container that satisfies the invariant, let \<open>kvs\<close> be the entries of
  the walk from \<^verbatim>\<open>begin()\<close> to \<^verbatim>\<open>end()\<close>.  When no entry has a key equal to \<open>k\<close>,
  \<^verbatim>\<open>insert(k, v)\<close> succeeds with the flag true, and afterwards \<^verbatim>\<open>at(k)\<close> returns a reference
  that reads \<open>v\<close>, \<^verbatim>\<open>count(k)\<close> is 1 and \<^verbatim>\<open>size()\<close> is one more.  When an entry has a key equal
  to \<open>k\<close>, \<^verbatim>\<open>erase(find(k))\<close> succeeds, and afterwards \<^verbatim>\<open>count(k)\<close> is 0, \<^verbatim>\<open>at(k)\<close> raises
  \<^verbatim>\<open>index_out_of_bound\<close>, \<^verbatim>\<open>size()\<close> is one less, and the walk gives the other entries in
  their old order.
\<close>

theorem insert_at_and_erase_count_round_trip:
  assumes "hash_ok T" and "maps s this = Some c" and "lhm_inv T s c as"
  shows "\<exists>kvs. iterate s this = Some kvs \<and> size_lhm s this = Some (length kvs) \<and>
           (case find (\<lambda>kv. equal_func T (fst kv) k) kvs of
              None \<Rightarrow>
                (\<exists>it s1 a. insert_lhm T this (k, v) s = Some ((it, True), s1) \<and>
                   at T s1 this k = Some (Inr a) \<and> read_ref s1 a = Some v \<and>
                   count T s1 this k = Some 1 \<and> size_lhm s1 this = Some (Suc (length kvs)))
            | Some kv \<Rightarrow>
                (\<exists>pos s2 n. find_lhm T s this k = Some pos \<and> iter_deref s pos = Some kv \<and>
                   erase T this pos s = Some (Inr s2) \<and>
                   count T s2 this k = Some 0 \<and>
                   at T s2 this k = Some (Inl index_out_of_bound) \<and>
                   length kvs = Suc n \<and> size_lhm s2 this = Some n \<and>
                   iterate s2 this = Some (filter (\<lambda>kv. \<not> equal_func T (fst kv) k) kvs)))"
proof -
  note S = inv_struct[OF assms(3)]
  note lf = lookup_find[OF structD(3)[OF S], of T k]
  have i0: "iterate s this = Some (contents s as)" by (rule iterate_inv[OF assms(2,3)])
  have sz: "size_lhm s this = Some (length (contents s as))"
    using size_spec[OF assms(2,3)] by (simp add: length_contents)
  show ?thesis
  proof (cases "lookup T s as k")
    case None
    have f: "find (\<lambda>kv. equal_func T (fst kv) k) (contents s as) = None" using lf None by simp
    from insert_last[OF assms(1,3,2) None, of v] obtain n s1 c1 where r:
      "insert_lhm T this (k, v) s = Some ((\<lparr>node_it = Some n, map_it = Some this\<rparr>, True), s1)"
      "maps s1 this = Some c1" "lhm_inv T s1 c1 (as @ [n])"
      "at T s1 this k = Some (Inr n)" "read_ref s1 n = Some v" "count T s1 this k = Some 1"
      by metis
    have "size_lhm s1 this = Some (Suc (length (contents s as)))"
      using size_spec[OF r(2,3)] by (simp add: length_contents)
    then show ?thesis using i0 sz f r(1,4,5,6)
      by (intro exI[of _ "contents s as"]) auto
  next
    case (Some a)
    from lookup_Some_entry[OF Some] obtain d where d: "a \<in> set as" "entry s a = Some d" by blast
    define pos where "pos = \<lparr>node_it = Some a, map_it = Some this\<rparr>"
    have f: "find (\<lambda>kv. equal_func T (fst kv) k) (contents s as) = Some d" using lf Some d by simp
    have fl: "find_lhm T s this k = Some pos"
      using find_spec[OF assms(1) S assms(2), of k] Some by (simp add: pos_def)
    have de: "iter_deref s pos = Some d" unfolding pos_def by (rule deref_entry[OF d(2)])
    from erase_present[OF assms(1,3,2) Some] obtain s2 c2 as2 where e:
      "erase T this pos s = Some (Inr s2)"
      "maps s2 this = Some c2" "lhm_inv T s2 c2 as2"
      "contents s2 as2 = filter (\<lambda>kv. \<not> equal_func T (fst kv) k) (contents s as)"
      "lookup T s2 as2 k = None" "Suc (length as2) = length as"
      unfolding pos_def by metis
    note S2 = inv_struct[OF e(3)]
    have c0: "count T s2 this k = Some 0" using count_spec[OF assms(1) S2 e(2), of k] e(5) by simp
    have a0: "at T s2 this k = Some (Inl index_out_of_bound)"
      using at_spec[OF assms(1) S2 e(2), of k] e(5) by simp
    have s2: "size_lhm s2 this = Some (length as2)" by (rule size_spec[OF e(2,3)])
    have ln: "length (contents s as) = Suc (length as2)" using e(6) by (simp add: length_contents)
    have i2: "iterate s2 this =
        Some (filter (\<lambda>kv. \<not> equal_func T (fst kv) k) (contents s as))"
      using iterate_inv[OF e(2,3)] e(4) by simp
    have "\<exists>pos s2 n. find_lhm T s this k = Some pos \<and> iter_deref s pos = Some d \<and>
        erase T this pos s = Some (Inr s2) \<and> count T s2 this k = Some 0 \<and>
        at T s2 this k = Some (Inl index_out_of_bound) \<and>
        length (contents s as) = Suc n \<and> size_lhm s2 this = Some n \<and>
        iterate s2 this = Some (filter (\<lambda>kv. \<not> equal_func T (fst kv) k) (contents s as))"
      using fl de e(1) c0 a0 ln s2 i2 by blast
    then show ?thesis using i0 sz f
      by (intro exI[of _ "contents s as"]) simp
  qed
qed

theorem insert_at_and_erase_count_round_trip_witness:
  "hash_ok nat_traits \<and>
   (\<exists>s0 s c as. linked_hashmap_ctor 0 empty_heap = Some s0 \<and>
      run_calls nat_traits 0 [Insert 1 10, Insert 2 20, Insert 3 30] s0 = Some (None, s) \<and>
      maps s 0 = Some c \<and> lhm_inv nat_traits s c as \<and>
      iterate s 0 = Some [(1, 10), (2, 20), (3, 30)] \<and> size_lhm s 0 = Some 3 \<and>
      (\<exists>it s1 a. insert_lhm nat_traits 0 (4, 40) s = Some ((it, True), s1) \<and>
         at nat_traits s1 0 4 = Some (Inr a) \<and> read_ref s1 a = Some 40 \<and>
         count nat_traits s1 0 4 = Some 1 \<and> size_lhm s1 0 = Some 4) \<and>
      (\<exists>pos s2. find_lhm nat_traits s 0 2 = Some pos \<and> iter_deref s pos = Some (2, 20) \<and>
         erase nat_traits 0 pos s = Some (Inr s2) \<and> count nat_traits s2 0 2 = Some 0 \<and>
         at nat_traits s2 0 2 = Some (Inl index_out_of_bound) \<and> size_lhm s2 0 = Some 2 \<and>
         iterate s2 0 = Some [(1, 10), (3, 30)]))"
proof -
  define cs :: "(nat, nat) call list" where "cs = [Insert 1 10, Insert 2 20, Insert 3 30]"
  have ok: "script_ok nat_traits [] cs" by (simp add: cs_def nat_traits_def)
  have ins: "inserted cs = [(1, 10), (2, 20), (3, 30)]" by (simp add: cs_def)
  from example_state[OF ok] obtain s0 s c as where st:
    "linked_hashmap_ctor 0 empty_heap = Some s0"
    "run_calls nat_traits 0 cs s0 = Some (None, s)" "maps s 0 = Some c"
    "lhm_inv nat_traits s c as" "contents s as = inserted cs"
    by metis
  have it0: "iterate s 0 = Some [(1, 10), (2, 20), (3, 30)]"
    using iterate_inv[OF st(3,4)] st(5) ins by simp
  have f4: "find (\<lambda>kv. equal_func nat_traits (fst kv) 4) [(1, 10), (2, 20), (3, 30 :: nat)] = None"
    and f2: "find (\<lambda>kv. equal_func nat_traits (fst kv) 2) [(1, 10), (2, 20), (3, 30 :: nat)] =
      Some (2, 20)"
    and fi: "filter (\<lambda>kv. \<not> equal_func nat_traits (fst kv) 2) [(1, 10), (2, 20), (3, 30 :: nat)] =
      [(1, 10), (3, 30)]"
    by (simp_all add: nat_traits_def)
  from insert_at_and_erase_count_round_trip[OF hash_ok_nat st(3,4), of 4 40] it0 f4
  have a: "size_lhm s 0 = Some 3"
    "\<exists>it s1 a. insert_lhm nat_traits 0 (4, 40) s = Some ((it, True), s1) \<and>
         at nat_traits s1 0 4 = Some (Inr a) \<and> read_ref s1 a = Some 40 \<and>
         count nat_traits s1 0 4 = Some 1 \<and> size_lhm s1 0 = Some 4"
    by auto
  from insert_at_and_erase_count_round_trip[OF hash_ok_nat st(3,4), of 2 0] it0 f2 fi
  have b: "\<exists>pos s2. find_lhm nat_traits s 0 2 = Some pos \<and> iter_deref s pos = Some (2, 20) \<and>
         erase nat_traits 0 pos s = Some (Inr s2) \<and> count nat_traits s2 0 2 = Some 0 \<and>
         at nat_traits s2 0 2 = Some (Inl index_out_of_bound) \<and> size_lhm s2 0 = Some 2 \<and>
         iterate s2 0 = Some [(1, 10), (3, 30)]"
    by auto
  show ?thesis
    using hash_ok_nat st(1,3,4) st(2)[unfolded cs_def] it0 a b by blast
qed

text \<open>
  C8 (copy independence).  Let the source at \<open>other\<close> satisfy the invariant and \<open>kvs\<close> be its
  entries in the order of its walk.  The copy constructor, run on any other address
  \<open>this\<close>, returns a store in which \<open>this\<close> is a copy of the source: it holds \<open>kvs\<close> in that
  order, has the bucket count of the source in a bucket array of its own and shares no
  node with the source, which is unchanged; and whatever sequence of calls is then made on
  the copy (\<^verbatim>\<open>insert\<close>, \<^verbatim>\<open>erase\<close>, \<^verbatim>\<open>clear\<close>, \<^verbatim>\<open>operator[]\<close>, writes through references, ...),
  the source keeps its members, its size and its entries with their values in their
  order.  Assignment to an existing container at \<open>this\<close> that shares nothing with the source
  returns a store with the same properties.
\<close>

theorem copy_is_independent:
  assumes "hash_ok T" and "this \<noteq> other" and "maps s other = Some co"
    and "lhm_inv T s co aso"
  shows "\<exists>kvs. iterate s other = Some kvs \<and>
           (\<exists>s'. linked_hashmap_copy_ctor T this other s = Some s' \<and>
              copy_of T this other co kvs s') \<and>
           (independent T s this other \<longrightarrow>
              (\<exists>s'. assign T this other s = Some s' \<and> copy_of T this other co kvs s'))"
proof -
  define kvs where "kvs = contents s aso"
  have i0: "iterate s other = Some kvs" unfolding kvs_def by (rule iterate_inv[OF assms(3,4)])
  from deep_copy_spec[OF assms] obtain s' c' as' where r:
    "deep_copy T this other s = Some s'"
    "maps s' this = Some c'" "lhm_inv T s' c' as'" "contents s' as' = contents s aso"
    "bucket_count c' = bucket_count co" "maps s' other = Some co"
    "lhm_inv T s' co aso" "contents s' aso = contents s aso" "separate c' as' co aso"
    by metis
  have "copy_of T this other co kvs s'"
    by (rule copy_ofI[OF assms(1,2) r(2,3,6,7,9) _ _ r(5)]) (simp_all add: kvs_def r(4,8))
  then have ctor: "\<exists>s'. linked_hashmap_copy_ctor T this other s = Some s' \<and>
      copy_of T this other co kvs s'"
    using r(1) by (simp add: linked_hashmap_copy_ctor_def)
  have asg: "\<exists>s'. assign T this other s = Some s' \<and> copy_of T this other co kvs s'"
    if "independent T s this other"
  proof -
    from that assms(3) obtain c as aso' where i: "maps s this = Some c" "lhm_inv T s c as"
      "lhm_inv T s co aso'" "separate c as co aso'"
      unfolding independent_def by auto
    have k: "contents s aso' = kvs" using iterate_inv[OF assms(3) i(3)] i0 by simp
    from assign_spec[OF assms(1,2) i(1,2) assms(3) i(3,4)] obtain s' c' as' where a:
      "assign T this other s = Some s'"
      "maps s' this = Some c'" "lhm_inv T s' c' as'" "contents s' as' = contents s aso'"
      "bucket_count c' = bucket_count co" "maps s' other = Some co"
      "lhm_inv T s' co aso'" "contents s' aso' = contents s aso'" "separate c' as' co aso'"
      by metis
    have "copy_of T this other co kvs s'"
      by (rule copy_ofI[OF assms(1,2) a(2,3,6,7,9) _ _ a(5)]) (simp_all add: k a(4,8))
    then show ?thesis using a(1) by blast
  qed
  show ?thesis using i0 ctor asg by blast
qed

theorem copy_is_independent_witness:
  "hash_ok nat_traits \<and>
   (\<exists>s c as. two_maps = Some s \<and> maps s 0 = Some c \<and> lhm_inv nat_traits s c as \<and>
      iterate s 0 =
        Some [(1, 10), (2, 20), (3, 30), (4, 40), (5, 50), (6, 60), (7, 70), (8, 80), (9, 90),
              (10, 100), (11, 110), (12, 120), (13, 130)] \<and>
      (\<exists>s' c' e s''. linked_hashmap_copy_ctor nat_traits 2 0 s = Some s' \<and>
         maps s' 2 = Some c' \<and> bucket_count c' = bucket_count c \<and> buckets c' \<noteq> buckets c \<and>
         iterate s' 2 =
           Some [(1, 10), (2, 20), (3, 30), (4, 40), (5, 50), (6, 60), (7, 70), (8, 80),
                 (9, 90), (10, 100), (11, 110), (12, 120), (13, 130)] \<and>
         run_calls nat_traits 2 [Erase 1, Assign_at 2 7, Insert 14 140, Clear] s' =
           Some (e, s'') \<and>
         maps s'' 0 = Some c \<and> size_lhm s'' 0 = Some 13 \<and>
         iterate s'' 0 =
           Some [(1, 10), (2, 20), (3, 30), (4, 40), (5, 50), (6, 60), (7, 70), (8, 80),
                 (9, 90), (10, 100), (11, 110), (12, 120), (13, 130)]) \<and>
      independent nat_traits s 1 0 \<and>
      (\<exists>s' c' e s''. assign nat_traits 1 0 s = Some s' \<and>
         maps s' 1 = Some c' \<and> bucket_count c' = bucket_count c \<and> buckets c' \<noteq> buckets c \<and>
         iterate s' 1 =
           Some [(1, 10), (2, 20), (3, 30), (4, 40), (5, 50), (6, 60), (7, 70), (8, 80),
                 (9, 90), (10, 100), (11, 110), (12, 120), (13, 130)] \<and>
         run_calls nat_traits 1 [Erase 1, Assign_at 2 7, Insert 14 140, Clear] s' =
           Some (e, s'') \<and>
         maps s'' 0 = Some c \<and> size_lhm s'' 0 = Some 13 \<and>
         iterate s'' 0 =
           Some [(1, 10), (2, 20), (3, 30), (4, 40), (5, 50), (6, 60), (7, 70), (8, 80),
                 (9, 90), (10, 100), (11, 110), (12, 120), (13, 130)]))"
proof -
  define kvs :: "(nat \<times> nat) list" where "kvs =
    [(1, 10), (2, 20), (3, 30), (4, 40), (5, 50), (6, 60), (7, 70), (8, 80), (9, 90),
     (10, 100), (11, 110), (12, 120), (13, 130)]"
  define cs :: "(nat, nat) call list" where
    "cs = [Erase 1, Assign_at 2 7, Insert 14 140, Clear]"
  have l: "length kvs = 13" by (simp add: kvs_def)
  from two_maps_state obtain s c as c1 where st: "two_maps = Some s"
    "maps s 0 = Some c" "lhm_inv nat_traits s c as" "contents s as = kvs"
    "maps s 1 = Some c1" "lhm_inv nat_traits s c1 []" "separate c as c1 []"
    unfolding kvs_def by metis
  have it0: "iterate s 0 = Some kvs" using iterate_inv[OF st(2,3)] st(4) by simp
  have ind: "independent nat_traits s 1 0"
    unfolding independent_def using st(2,3,5,6) separate_sym[OF st(7)] by blast
  have use: "\<exists>c' e s''. maps s' this = Some c' \<and> bucket_count c' = bucket_count c \<and>
      buckets c' \<noteq> buckets c \<and> iterate s' this = Some kvs \<and>
      run_calls nat_traits this cs s' = Some (e, s'') \<and>
      maps s'' 0 = Some c \<and> size_lhm s'' 0 = Some 13 \<and> iterate s'' 0 = Some kvs"
    if "copy_of nat_traits this 0 c kvs s'" for this s'
  proof -
    from that obtain c' where c: "maps s' this = Some c'" "bucket_count c' = bucket_count c"
      "buckets c' \<noteq> buckets c" "iterate s' this = Some kvs"
      "\<forall>cs. \<exists>e s''. run_calls nat_traits this cs s' = Some (e, s'') \<and>
         maps s'' 0 = Some c \<and> independent nat_traits s'' this 0 \<and>
         iterate s'' 0 = Some kvs \<and> size_lhm s'' 0 = Some (length kvs)"
      unfolding copy_of_def by blast
    from c(5)[rule_format, of cs] obtain e s'' where
      "run_calls nat_traits this cs s' = Some (e, s'')" "maps s'' 0 = Some c"
      "iterate s'' 0 = Some kvs" "size_lhm s'' 0 = Some (length kvs)"
      by blast
    then show ?thesis using c(1-4) l by auto
  qed
  from copy_is_independent[OF hash_ok_nat _ st(2,3), of 2] it0
  obtain s2 where c2: "linked_hashmap_copy_ctor nat_traits 2 0 s = Some s2"
    "copy_of nat_traits 2 0 c kvs s2"
    by auto
  from copy_is_independent[OF hash_ok_nat _ st(2,3), of 1] it0 ind
  obtain s3 where c3: "assign nat_traits 1 0 s = Some s3" "copy_of nat_traits 1 0 c kvs s3"
    by auto
  have A: "\<exists>s' c' e s''. linked_hashmap_copy_ctor nat_traits 2 0 s = Some s' \<and>
      maps s' 2 = Some c' \<and> bucket_count c' = bucket_count c \<and>
      buckets c' \<noteq> buckets c \<and> iterate s' 2 = Some kvs \<and>
      run_calls nat_traits 2 cs s' = Some (e, s'') \<and>
      maps s'' 0 = Some c \<and> size_lhm s'' 0 = Some 13 \<and> iterate s'' 0 = Some kvs"
    using c2(1) use[OF c2(2)] by blast
  have B: "\<exists>s' c' e s''. assign nat_traits 1 0 s = Some s' \<and>
      maps s' 1 = Some c' \<and> bucket_count c' = bucket_count c \<and>
      buckets c' \<noteq> buckets c \<and> iterate s' 1 = Some kvs \<and>
      run_calls nat_traits 1 cs s' = Some (e, s'') \<and>
      maps s'' 0 = Some c \<and> size_lhm s'' 0 = Some 13 \<and> iterate s'' 0 = Some kvs"
    using c3(1) use[OF c3(2)] by blast
  show ?thesis
    using hash_ok_nat st(1,2,3) it0 A ind B unfolding kvs_def cs_def by blast
qed

text \<open>
  C9.  In an empty container \<^verbatim>\<open>begin()\<close> and \<^verbatim>\<open>end()\<close> are the same cursor (the head
  sentinel's \<open>next\<close> is the tail sentinel), and retreating it raises
  \<^verbatim>\<open>invalid_iterator\<close>.  In any container, a retreat from a position that \<^verbatim>\<open>begin()\<close>, \<^verbatim>\<open>end()\<close>
  or \<^verbatim>\<open>find\<close> can give either raises or lands on a live entry, never on the head
  sentinel.
\<close>

theorem retreat_from_end_of_empty_raises:
  assumes "maps s this = Some c" and "lhm_inv T s c as" and "empty_lhm s this = Some True"
  shows "\<exists>e. end_it s this = Some e \<and> begin_it s this = Some e \<and>
           iter_dec s e = Some (Inl invalid_iterator)"
proof -
  note S = inv_struct[OF assms(2)]
  have "element_count c = 0" using assms(1,3) by (simp add: empty_lhm_def)
  then have as: "as = []" using structD(5)[OF S] by simp
  have e: "end_it s this = Some (cursor this c as 0)"
    using assms(1) as by (simp add: end_it_def cursor_def)
  from dll_first(1)[OF structD(2)[OF S]] as obtain hn where
    "nodes s (head c) = Some hn" "next hn = Some (tail c)"
    by (auto simp: view_Some)
  then have b: "begin_it s this = Some (cursor this c as 0)"
    using assms(1) as by (simp add: begin_it_def cursor_def)
  show ?thesis
    using e b iter_dec_spec[OF S assms(1), of 0] by simp
qed

theorem retreat_from_end_of_empty_raises_witness:
  "\<exists>s c. linked_hashmap_ctor 0 empty_heap = Some s \<and> maps s 0 = Some c \<and>
      lhm_inv nat_traits s c [] \<and> empty_lhm s 0 = Some True \<and>
      (\<exists>e. end_it s 0 = Some e \<and> begin_it s 0 = Some e \<and>
           iter_dec s e = Some (Inl invalid_iterator))"
proof -
  from ctor_spec[of 0 empty_heap nat_traits] obtain s c where c:
    "linked_hashmap_ctor 0 empty_heap = Some s" "maps s 0 = Some c" "lhm_inv nat_traits s c []"
    by metis
  have e: "empty_lhm s 0 = Some True"
    using c(2) structD(5)[OF inv_struct[OF c(3)]] by (simp add: empty_lhm_def)
  show ?thesis
    using retreat_from_end_of_empty_raises[OF c(2,3) e] c e by blast
qed

text \<open>
  C10.  Self-assignment is a no-op: \<^verbatim>\<open>operator=\<close> compares \<open>this\<close> with the address of its
  argument and, when they are the same object, returns without touching the store.  The
  store after \<open>m = m\<close> is the store before it, so the size, the keys, the values, the
  iteration order and the bucket count of the container are what they were.
\<close>

theorem self_assignment_is_noop: "assign T this this s = Some s"
  by (simp add: assign_def)

end
